theory Spec2Isabelle
  imports Complex_Main "HOL-Library.Word" "HOL-Library.Signed_Division"
begin

unbundle bit_operations_syntax

section \<open>The key/value store\<close>

text \<open>
  The limiter keeps its state in a Redis server and touches it only through Lua scripts.
  The commands the scripts call are modelled here on one store per value type: a key maps
  to a value and an optional expiry instant. A key whose expiry instant has been reached is
  dead: every command treats it as absent. Inside a script numbers are real numbers (the
  scripts compute on floating-point values; rounding is not modelled). The clock reading
  \<open>now\<close> is what \<open>redis.call('TIME')\<close> yields inside the script. A command that fails
  aborts the script: the caller gets the error, and what the script wrote before stays.
\<close>

datatype error =
    TokensMustBePositive
  | NotAnInteger
  | AlreadyProcessed nat
  | NegativeLimit

record 'v entry =
  val :: 'v
  expire_at :: "real option"

type_synonym 'v store = "string \<rightharpoonup> 'v entry"

definition live :: "'v store \<Rightarrow> real \<Rightarrow> string \<Rightarrow> 'v entry option" where
  "live s now k =
     (case s k of
        None \<Rightarrow> None
      | Some e \<Rightarrow> (case expire_at e of
                    None \<Rightarrow> Some e
                  | Some x \<Rightarrow> if x \<le> now then None else Some e))"

text \<open>
  \<open>EXPIRE key ttl\<close>. The time to live must be a whole number of seconds, else the command
  fails (``value is not an integer or out of range''). On an existing key a positive time
  to live arms the expiry and a time to live of zero or less deletes the key; an absent key
  is left absent.
\<close>

definition whole :: "real \<Rightarrow> bool" where
  "whole x = (real_of_int \<lfloor>x\<rfloor> = x)"

definition EXPIRE :: "'v store \<Rightarrow> real \<Rightarrow> string \<Rightarrow> real \<Rightarrow> error + 'v store" where
  "EXPIRE s now k ttl =
     (if \<not> whole ttl then Inl NotAnInteger
      else Inr (case live s now k of
                  None \<Rightarrow> s
                | Some e \<Rightarrow> if ttl \<le> 0 then s(k := None)
                            else s(k \<mapsto> e\<lparr>expire_at := Some (now + ttl)\<rparr>)))"

text \<open>\<open>TTL key\<close>: -2 for an absent key, -1 for a key without expiry, else the seconds left.\<close>

definition TTL_cmd :: "'v store \<Rightarrow> real \<Rightarrow> string \<Rightarrow> int" where
  "TTL_cmd s now k =
     (case live s now k of
        None \<Rightarrow> - 2
      | Some e \<Rightarrow> (case expire_at e of
                    None \<Rightarrow> - 1
                  | Some x \<Rightarrow> \<lfloor>x - now + 1 / 2\<rfloor>))"

subsection \<open>Hashes\<close>

text \<open>The four hash fields the bucket scripts read and write.\<close>

datatype field = F_tokens | F_last_refill | F_capacity | F_refill_rate

type_synonym hash = "field \<rightharpoonup> real"

text \<open>\<open>HMGET key f\<close> followed by Lua's \<open>tonumber\<close>: \<open>None\<close> is Lua's \<open>nil\<close>.\<close>

definition HMGET :: "hash store \<Rightarrow> real \<Rightarrow> string \<Rightarrow> field \<Rightarrow> real option" where
  "HMGET s now k f = (case live s now k of None \<Rightarrow> None | Some e \<Rightarrow> val e f)"

text \<open>
  \<open>HMSET key 'tokens' t 'last_refill' l 'capacity' c 'refill_rate' r\<close>: creates the hash
  (without expiry) when the key is absent, and keeps the expiry of an existing key.
\<close>

definition HMSET :: "hash store \<Rightarrow> real \<Rightarrow> string \<Rightarrow> real \<Rightarrow> real \<Rightarrow> real \<Rightarrow> real \<Rightarrow> hash store" where
  "HMSET s now k t l c r =
     (let e = (case live s now k of
                 None \<Rightarrow> \<lparr>val = Map.empty, expire_at = None\<rparr>
               | Some e \<Rightarrow> e)
      in s(k \<mapsto> e\<lparr>val := (val e)(F_tokens \<mapsto> t, F_last_refill \<mapsto> l,
                                   F_capacity \<mapsto> c, F_refill_rate \<mapsto> r)\<rparr>))"

text \<open>
  A script's reply reaches the client as integers: Redis converts every Lua number of the
  reply to an integer and drops its fraction.
\<close>

definition lua_to_integer :: "real \<Rightarrow> int" where
  "lua_to_integer v = (if v \<ge> 0 then \<lfloor>v\<rfloor> else \<lceil>v\<rceil>)"

section \<open>Bucket engine\<close>

record Config =
  Capacity :: int
  RefillRate :: real
  TTL :: real

definition keyName :: "string \<Rightarrow> string" where
  "keyName key = ''token_bucket:'' @ key"

text \<open>
  \<open>takeTokensScript\<close>. The Lua values it returns are \<open>(allowed, new_tokens, retry_after)\<close>.
  With \<open>refill_rate = 0\<close> Lua's division yields an infinity where HOL's yields 0; statements
  about \<open>retry_after\<close> below are made for a positive refill rate.
\<close>

definition takeTokensScript ::
  "hash store \<Rightarrow> real \<Rightarrow> string \<Rightarrow> real \<Rightarrow> real \<Rightarrow> real \<Rightarrow> real
     \<Rightarrow> (error + (int \<times> real \<times> real)) \<times> hash store" where
  "takeTokensScript s current_time key requested_tokens capacity refill_rate ttl =
     (let current_tokens = (case HMGET s current_time key F_tokens of Some v \<Rightarrow> v | None \<Rightarrow> capacity);
          last_refill = (case HMGET s current_time key F_last_refill of Some v \<Rightarrow> v | None \<Rightarrow> current_time);
          time_elapsed = max 0 (current_time - last_refill);
          tokens_to_add = time_elapsed * refill_rate;
          new_tokens = min capacity (current_tokens + tokens_to_add);
          (allowed, new_tokens, retry_after) =
             (if new_tokens \<ge> requested_tokens
              then (1, new_tokens - requested_tokens, 0)
              else (0, new_tokens, (requested_tokens - new_tokens) / refill_rate));
          s1 = HMSET s current_time key new_tokens current_time capacity refill_rate
      in case EXPIRE s1 current_time key ttl of
           Inl err \<Rightarrow> (Inl err, s1)
         | Inr s2 \<Rightarrow> (Inr (allowed, new_tokens, retry_after), s2))"

text \<open>\<open>getBucketStateScript\<close>. The Lua values it returns are \<open>(new_tokens, current_time, bucket_ttl)\<close>.\<close>

definition getBucketStateScript ::
  "hash store \<Rightarrow> real \<Rightarrow> string \<Rightarrow> real \<Rightarrow> real \<Rightarrow> real
     \<Rightarrow> (error + (real \<times> real \<times> real)) \<times> hash store" where
  "getBucketStateScript s current_time key capacity refill_rate ttl =
     (let current_tokens = (case HMGET s current_time key F_tokens of Some v \<Rightarrow> v | None \<Rightarrow> capacity);
          last_refill = (case HMGET s current_time key F_last_refill of Some v \<Rightarrow> v | None \<Rightarrow> current_time);
          time_elapsed = max 0 (current_time - last_refill);
          tokens_to_add = time_elapsed * refill_rate;
          new_tokens = min capacity (current_tokens + tokens_to_add);
          s0 = (if tokens_to_add > 0
                then HMSET s current_time key new_tokens current_time capacity refill_rate
                else s)
      in case (if tokens_to_add > 0 then EXPIRE s0 current_time key ttl else Inr s0) of
           Inl err \<Rightarrow> (Inl err, s0)
         | Inr s1 \<Rightarrow>
             (let bucket_ttl = TTL_cmd s1 current_time key
              in if bucket_ttl = - 1
                 then (case EXPIRE s1 current_time key ttl of
                         Inl err \<Rightarrow> (Inl err, s1)
                       | Inr s2 \<Rightarrow> (Inr (new_tokens, current_time, ttl), s2))
                 else (Inr (new_tokens, current_time, real_of_int bucket_ttl), s1)))"

text \<open>\<open>resetBucketScript\<close>. The Lua values it returns are \<open>(capacity, current_time)\<close>.\<close>

definition resetBucketScript ::
  "hash store \<Rightarrow> real \<Rightarrow> string \<Rightarrow> real \<Rightarrow> real \<Rightarrow> real \<Rightarrow> (error + (real \<times> real)) \<times> hash store" where
  "resetBucketScript s current_time key capacity refill_rate ttl =
     (let s1 = HMSET s current_time key capacity current_time capacity refill_rate
      in case EXPIRE s1 current_time key ttl of
           Inl err \<Rightarrow> (Inl err, s1)
         | Inr s2 \<Rightarrow> (Inr (capacity, current_time), s2))"

record TokenResult =
  Allowed :: bool
  RemainingTokens :: real
  RetryAfter :: real

record BucketState =
  bs_Key :: string
  CurrentTokens :: real
  bs_Capacity :: int
  bs_RefillRate :: real
  LastRefillTime :: int
  bs_TTL :: int

text \<open>
  \<open>parseInt64\<close> and \<open>parseFloat64\<close> on an element of a script's reply, which is an
  \<open>int64\<close>: the other branches of their type switches are not reached.
\<close>

definition parseInt64 :: "int \<Rightarrow> int" where
  "parseInt64 v = v"

definition parseFloat64 :: "int \<Rightarrow> real" where
  "parseFloat64 v = real_of_int v"

text \<open>
  The three operations of \<open>RedisTokenBucket\<close>. Each takes the store and the store's clock
  reading and returns its result, or the error of the script, together with the store the
  script leaves behind. \<open>values\<close> is the reply as the client receives it. Failures of the
  connection are not modelled.
\<close>

definition TakeTokens ::
  "Config \<Rightarrow> hash store \<Rightarrow> real \<Rightarrow> string \<Rightarrow> real \<Rightarrow> (error + TokenResult) \<times> hash store" where
  "TakeTokens cfg s now key tokens =
     (if tokens \<le> 0 then (Inl TokensMustBePositive, s)
      else
        (case takeTokensScript s now (keyName key) tokens
                (real_of_int (Capacity cfg)) (RefillRate cfg) (TTL cfg) of
           (Inl err, s') \<Rightarrow> (Inl err, s')
         | (Inr (a, t, r), s') \<Rightarrow>
             (let values = (a, lua_to_integer t, lua_to_integer r);
                  allowed = (parseInt64 (fst values) = 1);
                  remainingTokens = parseFloat64 (fst (snd values));
                  retryAfter = parseFloat64 (snd (snd values))
              in (Inr \<lparr>Allowed = allowed,
                       RemainingTokens = remainingTokens,
                       RetryAfter = (if \<not> allowed \<and> retryAfter > 0 then retryAfter else 0)\<rparr>,
                  s'))))"

definition GetBucketState ::
  "Config \<Rightarrow> hash store \<Rightarrow> real \<Rightarrow> string \<Rightarrow> (error + BucketState) \<times> hash store" where
  "GetBucketState cfg s now key =
     (case getBucketStateScript s now (keyName key)
             (real_of_int (Capacity cfg)) (RefillRate cfg) (TTL cfg) of
        (Inl err, s') \<Rightarrow> (Inl err, s')
      | (Inr (t, l, b), s') \<Rightarrow>
          (let values = (lua_to_integer t, lua_to_integer l, lua_to_integer b)
           in (Inr \<lparr>bs_Key = key,
                    CurrentTokens = parseFloat64 (fst values),
                    bs_Capacity = Capacity cfg,
                    bs_RefillRate = RefillRate cfg,
                    LastRefillTime = parseInt64 (fst (snd values)),
                    bs_TTL = parseInt64 (snd (snd values))\<rparr>,
               s')))"

definition ResetBucket :: "Config \<Rightarrow> hash store \<Rightarrow> real \<Rightarrow> string \<Rightarrow> error option \<times> hash store" where
  "ResetBucket cfg s now key =
     (case resetBucketScript s now (keyName key)
             (real_of_int (Capacity cfg)) (RefillRate cfg) (TTL cfg) of
        (Inl err, s') \<Rightarrow> (Some err, s')
      | (Inr r, s') \<Rightarrow> (None, s'))"

text \<open>
  The quantities the specification of \<open>take\<close> names: the stored token count and last-refill
  instant with their defaults, and the pool after the lazy refill.
\<close>

definition stored_tokens :: "Config \<Rightarrow> hash store \<Rightarrow> real \<Rightarrow> string \<Rightarrow> real" where
  "stored_tokens cfg s now key =
     (case live s now (keyName key) of
        None \<Rightarrow> real_of_int (Capacity cfg)
      | Some e \<Rightarrow> (case val e F_tokens of None \<Rightarrow> real_of_int (Capacity cfg) | Some t \<Rightarrow> t))"

definition stored_last_refill :: "hash store \<Rightarrow> real \<Rightarrow> string \<Rightarrow> real" where
  "stored_last_refill s now key =
     (case live s now (keyName key) of
        None \<Rightarrow> now
      | Some e \<Rightarrow> (case val e F_last_refill of None \<Rightarrow> now | Some l \<Rightarrow> l))"

definition refill_amount :: "Config \<Rightarrow> hash store \<Rightarrow> real \<Rightarrow> string \<Rightarrow> real" where
  "refill_amount cfg s now key = max 0 (now - stored_last_refill s now key) * RefillRate cfg"

definition pool :: "Config \<Rightarrow> hash store \<Rightarrow> real \<Rightarrow> string \<Rightarrow> real" where
  "pool cfg s now key =
     min (real_of_int (Capacity cfg)) (stored_tokens cfg s now key + refill_amount cfg s now key)"

definition live_fields :: "hash store \<Rightarrow> real \<Rightarrow> string \<Rightarrow> hash" where
  "live_fields s now k = (case live s now k of None \<Rightarrow> Map.empty | Some e \<Rightarrow> val e)"


text \<open>
  One step of the engine on a key: any of the three operations, at a clock reading, and
  the store it leaves behind (also when the operation returns an error).
\<close>

datatype bucket_op = Take real | GetState | Reset

fun apply_op :: "Config \<Rightarrow> hash store \<Rightarrow> real \<Rightarrow> string \<Rightarrow> bucket_op \<Rightarrow> hash store" where
  "apply_op cfg s now key (Take n) = snd (TakeTokens cfg s now key n)"
| "apply_op cfg s now key GetState = snd (GetBucketState cfg s now key)"
| "apply_op cfg s now key Reset = snd (ResetBucket cfg s now key)"

text \<open>What the store holds for a key, dead or alive.\<close>

definition tokens_of :: "hash store \<Rightarrow> string \<Rightarrow> real option" where
  "tokens_of s key = (case s (keyName key) of None \<Rightarrow> None | Some e \<Rightarrow> val e F_tokens)"

definition last_refill_of :: "hash store \<Rightarrow> string \<Rightarrow> real option" where
  "last_refill_of s key = (case s (keyName key) of None \<Rightarrow> None | Some e \<Rightarrow> val e F_last_refill)"

definition tokens_in_range :: "Config \<Rightarrow> hash store \<Rightarrow> string \<Rightarrow> bool" where
  "tokens_in_range cfg s key =
     (case tokens_of s key of
        None \<Rightarrow> True
      | Some t \<Rightarrow> 0 \<le> t \<and> t \<le> real_of_int (Capacity cfg))"

definition last_refill_le :: "hash store \<Rightarrow> string \<Rightarrow> real \<Rightarrow> bool" where
  "last_refill_le s key now = (case last_refill_of s key of None \<Rightarrow> True | Some l \<Rightarrow> l \<le> now)"

definition last_refill_ge :: "hash store \<Rightarrow> string \<Rightarrow> real option \<Rightarrow> bool" where
  "last_refill_ge s key old = (case (old, last_refill_of s key) of (Some l, Some l') \<Rightarrow> l \<le> l' | _ \<Rightarrow> True)"

text \<open>
  What the three store-side outcomes of a write-back are: the record as written, and the
  store after \<open>EXPIRE\<close> with a time to live that is positive, or not positive, or not a
  whole number.
\<close>

definition written :: "hash store \<Rightarrow> real \<Rightarrow> string \<Rightarrow> real \<Rightarrow> real \<Rightarrow> real \<Rightarrow> real \<Rightarrow> real option \<Rightarrow> hash entry" where
  "written s now k t l c r x =
     \<lparr>val = (live_fields s now k)(F_tokens \<mapsto> t, F_last_refill \<mapsto> l,
                                     F_capacity \<mapsto> c, F_refill_rate \<mapsto> r),
      expire_at = x\<rparr>"

definition old_expiry :: "hash store \<Rightarrow> real \<Rightarrow> string \<Rightarrow> real option" where
  "old_expiry s now k = (case live s now k of None \<Rightarrow> None | Some e \<Rightarrow> expire_at e)"

definition write_back_store :: "hash store \<Rightarrow> real \<Rightarrow> string \<Rightarrow> real \<Rightarrow> real \<Rightarrow> real \<Rightarrow> real \<Rightarrow> real \<Rightarrow> hash store" where
  "write_back_store s now k t l c r ttl =
     (if \<not> whole ttl then s(k \<mapsto> written s now k t l c r (old_expiry s now k))
      else if ttl \<le> 0 then s(k := None)
      else s(k \<mapsto> written s now k t l c r (Some (now + ttl))))"

section \<open>Outbox events and their repository\<close>

text \<open>
  The status column is a string in the code; the table's check constraint admits the four
  values of the constants \<open>StatusNew\<close>, \<open>StatusProcessing\<close>, \<open>StatusSent\<close> and
  \<open>StatusFailed\<close>. An event id (a UUID) is a number here, an instant (\<open>time.Time\<close>) is an
  integer count of nanoseconds, a duration likewise.
\<close>

datatype status = StatusNew | StatusProcessing | StatusSent | StatusFailed

record OutboxEvent =
  ID :: nat
  AggregateType :: string
  AggregateID :: string
  EventType :: string
  EventData :: string
  Status :: status
  Topic :: string
  PartitionKey :: "string option"
  CreatedAt :: int
  ProcessedAt :: "int option"
  RetryCount :: int
  MaxRetries :: int
  ErrorMessage :: "string option"

text \<open>The table \<open>outbox_events\<close>: its rows, each \<open>UPDATE\<close> rewriting the rows it matches in place.\<close>

type_synonym outbox_table = "OutboxEvent list"

text \<open>
  \<open>SELECT ... WHERE status = 'NEW' ORDER BY created_at ASC LIMIT limit\<close>. Rows with equal
  \<open>created_at\<close> come in table order; a negative limit is an error of the database.
\<close>

definition GetPendingOutboxEvents :: "outbox_table \<Rightarrow> int \<Rightarrow> error + OutboxEvent list" where
  "GetPendingOutboxEvents db limit =
     (if limit < 0 then Inl NegativeLimit
      else Inr (take (nat limit) (sort_key CreatedAt (filter (\<lambda>e. Status e = StatusNew) db))))"

definition MarkEventAsProcessing :: "outbox_table \<Rightarrow> int \<Rightarrow> nat \<Rightarrow> error + outbox_table" where
  "MarkEventAsProcessing db now eventID =
     (let rowsAffected = length (filter (\<lambda>e. ID e = eventID \<and> Status e = StatusNew) db)
      in if rowsAffected = 0 then Inl (AlreadyProcessed eventID)
         else Inr (map (\<lambda>e. if ID e = eventID \<and> Status e = StatusNew
                             then e\<lparr>Status := StatusProcessing, ProcessedAt := Some now\<rparr>
                             else e) db))"

definition MarkEventAsSent :: "outbox_table \<Rightarrow> int \<Rightarrow> nat \<Rightarrow> outbox_table" where
  "MarkEventAsSent db now eventID =
     map (\<lambda>e. if ID e = eventID
               then e\<lparr>Status := StatusSent, ProcessedAt := Some now\<rparr>
               else e) db"

definition MarkEventAsFailed :: "outbox_table \<Rightarrow> int \<Rightarrow> nat \<Rightarrow> string \<Rightarrow> outbox_table" where
  "MarkEventAsFailed db now eventID errorMsg =
     map (\<lambda>e. if ID e = eventID
               then e\<lparr>Status := StatusFailed, RetryCount := RetryCount e + 1,
                      ErrorMessage := Some errorMsg, ProcessedAt := Some now\<rparr>
               else e) db"

text \<open>A \<open>NULL\<close> \<open>processed_at\<close> does not satisfy \<open>processed_at < cutoff\<close>.\<close>

definition ResetStaleProcessingEvents :: "outbox_table \<Rightarrow> int \<Rightarrow> int \<Rightarrow> outbox_table" where
  "ResetStaleProcessingEvents db now timeout =
     (let cutoff = now - timeout
      in map (\<lambda>e. if Status e = StatusProcessing
                       \<and> (case ProcessedAt e of None \<Rightarrow> False | Some t \<Rightarrow> t < cutoff)
                  then e\<lparr>Status := StatusNew, ProcessedAt := None\<rparr>
                  else e) db)"

section \<open>Relay\<close>

record RelayConfig =
  PollInterval :: int
  BatchSize :: int
  ProcessingTimeout :: int

text \<open>
  What the relay meets outside the table during one tick: the outcome of publishing an
  event (\<open>None\<close> for success, else the error text) and the readings of \<open>time.Now()\<close> when
  the event is claimed and when it is marked.
\<close>

record relay_env =
  publish :: "OutboxEvent \<Rightarrow> string option"
  claim_time :: "OutboxEvent \<Rightarrow> int"
  mark_time :: "OutboxEvent \<Rightarrow> int"

text \<open>
  \<open>processEvent\<close>, with \<open>markEventAsSent\<close> and \<open>markEventAsFailed\<close> inlined. Each of them
  runs one repository update in a transaction of its own. The result is the error returned
  (only logged by the caller) and the tables committed, in order.
\<close>

definition processEvent :: "relay_env \<Rightarrow> outbox_table \<Rightarrow> OutboxEvent \<Rightarrow> error option \<times> outbox_table list" where
  "processEvent env db event =
     (if RetryCount event \<ge> MaxRetries event
      then (None, [MarkEventAsFailed db (mark_time env event) (ID event)
                     ''exceeded maximum retry attempts''])
      else (case MarkEventAsProcessing db (claim_time env event) (ID event) of
              Inl err \<Rightarrow> (Some err, [])
            | Inr db1 \<Rightarrow>
                (case publish env event of
                   Some err \<Rightarrow> (None, [db1, MarkEventAsFailed db1 (mark_time env event) (ID event) err])
                 | None \<Rightarrow> (None, [db1, MarkEventAsSent db1 (mark_time env event) (ID event)]))))"

text \<open>The loop of \<open>processOutboxEvents\<close> over the selected events.\<close>

fun process_events :: "relay_env \<Rightarrow> outbox_table \<Rightarrow> OutboxEvent list \<Rightarrow> outbox_table list" where
  "process_events env db [] = []"
| "process_events env db (event # events) =
     (let commits = snd (processEvent env db event)
      in commits @ process_events env (last (db # commits)) events)"

definition processOutboxEvents :: "RelayConfig \<Rightarrow> relay_env \<Rightarrow> outbox_table \<Rightarrow> error option \<times> outbox_table list" where
  "processOutboxEvents cfg env db =
     (case GetPendingOutboxEvents db (BatchSize cfg) of
        Inl err \<Rightarrow> (Some err, [])
      | Inr events \<Rightarrow> (None, process_events env db events))"

text \<open>
  The operations of a running relay: the recovery pass, as \<open>Start\<close> runs it with the
  configured timeout (in seconds) at some instant, and a tick of the polling loop.
\<close>

datatype relay_op = Recovery int | Tick relay_env

fun run_op :: "RelayConfig \<Rightarrow> outbox_table \<Rightarrow> relay_op \<Rightarrow> outbox_table list" where
  "run_op cfg db (Recovery now) =
     [ResetStaleProcessingEvents db now (ProcessingTimeout cfg * 1000000000)]"
| "run_op cfg db (Tick env) = snd (processOutboxEvents cfg env db)"

fun run_ops :: "RelayConfig \<Rightarrow> outbox_table \<Rightarrow> relay_op list \<Rightarrow> outbox_table list" where
  "run_ops cfg db [] = []"
| "run_ops cfg db (op # ops) =
     (let commits = run_op cfg db op
      in commits @ run_ops cfg (last (db # commits)) ops)"

text \<open>
  Several relays on one table. Each relay is a sequential process: \<open>Start\<close> runs the
  recovery pass and enters the polling loop; a tick selects the pending events; each
  selected event goes through \<open>processEvent\<close>, whose transactions (the claim, and the mark
  after the publication returned) are committed one at a time, so that commits of other
  relays can fall between them. \<open>phase\<close> is where a relay stands: not started, waiting for
  the ticker, in the loop over the selected events, or between the claim of an event and its
  mark.
\<close>

datatype phase = Stopped | Idle | Running "OutboxEvent list" | Claimed OutboxEvent "OutboxEvent list"

record relays =
  table :: outbox_table
  phase :: "nat \<Rightarrow> phase"

definition next_phase :: "OutboxEvent list \<Rightarrow> phase" where
  "next_phase events = (if events = [] then Idle else Running events)"

text \<open>
  The moves of a relay \<open>r\<close>: \<open>Start r now\<close>, the recovery pass of \<open>Start\<close>; \<open>Poll r\<close>, the
  selection at a tick; \<open>Begin r now\<close>, \<open>processEvent\<close> on the next selected event up to its
  first commit (the mark of an event out of retries, or the claim); \<open>Finish r outcome now\<close>,
  the rest of \<open>processEvent\<close> once the publication has returned \<open>outcome\<close>. A move that the
  relay's phase does not allow changes nothing.
\<close>

datatype relay_action =
    Start nat int
  | Poll nat
  | Begin nat int
  | Finish nat "string option" int

fun relay_step :: "RelayConfig \<Rightarrow> relays \<Rightarrow> relay_action \<Rightarrow> relays" where
  "relay_step cfg st (Start r now) =
     (case phase st r of
        Stopped \<Rightarrow>
          st\<lparr>table := ResetStaleProcessingEvents (table st) now (ProcessingTimeout cfg * 1000000000),
             phase := (phase st)(r := Idle)\<rparr>
      | _ \<Rightarrow> st)"
| "relay_step cfg st (Poll r) =
     (case phase st r of
        Idle \<Rightarrow>
          (case GetPendingOutboxEvents (table st) (BatchSize cfg) of
             Inl err \<Rightarrow> st
           | Inr events \<Rightarrow> st\<lparr>phase := (phase st)(r := next_phase events)\<rparr>)
      | _ \<Rightarrow> st)"
| "relay_step cfg st (Begin r now) =
     (case phase st r of
        Running (event # events) \<Rightarrow>
          (if RetryCount event \<ge> MaxRetries event
           then st\<lparr>table := MarkEventAsFailed (table st) now (ID event)
                               ''exceeded maximum retry attempts'',
                   phase := (phase st)(r := next_phase events)\<rparr>
           else (case MarkEventAsProcessing (table st) now (ID event) of
                   Inl err \<Rightarrow> st\<lparr>phase := (phase st)(r := next_phase events)\<rparr>
                 | Inr db1 \<Rightarrow> st\<lparr>table := db1, phase := (phase st)(r := Claimed event events)\<rparr>))
      | _ \<Rightarrow> st)"
| "relay_step cfg st (Finish r outcome now) =
     (case phase st r of
        Claimed event events \<Rightarrow>
          st\<lparr>table := (case outcome of
                         Some err \<Rightarrow> MarkEventAsFailed (table st) now (ID event) err
                       | None \<Rightarrow> MarkEventAsSent (table st) now (ID event)),
             phase := (phase st)(r := next_phase events)\<rparr>
      | _ \<Rightarrow> st)"

fun run_relays :: "RelayConfig \<Rightarrow> relays \<Rightarrow> relay_action list \<Rightarrow> relays list" where
  "run_relays cfg st [] = []"
| "run_relays cfg st (a # as) =
     (let st' = relay_step cfg st a
      in st' # run_relays cfg st' as)"


definition exhausted :: "OutboxEvent \<Rightarrow> bool" where
  "exhausted e = (RetryCount e \<ge> MaxRetries e)"

fun code_edge :: "bool \<Rightarrow> status \<Rightarrow> status \<Rightarrow> bool" where
  "code_edge out_of_retries StatusNew StatusProcessing = (\<not> out_of_retries)"
| "code_edge out_of_retries StatusNew StatusFailed = out_of_retries"
| "code_edge out_of_retries StatusProcessing StatusSent = True"
| "code_edge out_of_retries StatusProcessing StatusFailed = True"
| "code_edge out_of_retries StatusProcessing StatusNew = True"
| "code_edge out_of_retries a b = False"





definition failed_kept :: "outbox_table \<Rightarrow> outbox_table \<Rightarrow> bool" where
  "failed_kept d d' = list_all2 (\<lambda>e e'. Status e = StatusFailed \<longrightarrow> e' = e) d d'"

text \<open>A row for examples: a \<open>user.created\<close> event of aggregate \<open>user-1\<close>, at most 3 retries.\<close>

definition sample_event :: "nat \<Rightarrow> status \<Rightarrow> int option \<Rightarrow> int \<Rightarrow> string option \<Rightarrow> OutboxEvent" where
  "sample_event i st processed retries err =
     \<lparr>ID = i, AggregateType = ''user'', AggregateID = ''user-1'', EventType = ''user.created'',
      EventData = ''{}'', Status = st, Topic = ''user-events'', PartitionKey = None,
      CreatedAt = int i, ProcessedAt = processed, RetryCount = retries, MaxRetries = 3,
      ErrorMessage = err\<rparr>"

text \<open>
  What one commit may do to a row: keep its id, and either leave the row as it is or move
  its status along an edge of \<open>code_edge\<close>. \<open>settled_kept\<close>: rows that are SENT or FAILED
  are found unchanged.
\<close>

definition row_ok :: "OutboxEvent \<Rightarrow> OutboxEvent \<Rightarrow> bool" where
  "row_ok e e' = (ID e' = ID e \<and> (e' = e \<or> code_edge (exhausted e) (Status e) (Status e')))"

definition commit_ok :: "outbox_table \<Rightarrow> outbox_table \<Rightarrow> bool" where
  "commit_ok d d' = list_all2 row_ok d d'"

definition row_kept :: "OutboxEvent \<Rightarrow> OutboxEvent \<Rightarrow> bool" where
  "row_kept e e' =
     (ID e' = ID e \<and> (if Status e = StatusSent \<or> Status e = StatusFailed then e' = e else True))"

definition settled_kept :: "outbox_table \<Rightarrow> outbox_table \<Rightarrow> bool" where
  "settled_kept d d' = list_all2 row_kept d d'"

text \<open>\<open>others_same eid\<close>: rows of other ids are the same in both tables.\<close>

definition others_same :: "nat \<Rightarrow> outbox_table \<Rightarrow> outbox_table \<Rightarrow> bool" where
  "others_same eid d d' = list_all2 (\<lambda>e e'. ID e' = ID e \<and> (ID e \<noteq> eid \<longrightarrow> e' = e)) d d'"

text \<open>For examples: a relay configuration, a broker that accepts and one that refuses.\<close>

definition sample_cfg :: RelayConfig where
  "sample_cfg = \<lparr>PollInterval = 5, BatchSize = 100, ProcessingTimeout = 300\<rparr>"


definition broker_down :: relay_env where
  "broker_down = \<lparr>publish = (\<lambda>e. Some ''broker down''), claim_time = (\<lambda>e. 10),
                   mark_time = (\<lambda>e. 20)\<rparr>"


text \<open>For examples: no relay started yet.\<close>

definition all_stopped :: "outbox_table \<Rightarrow> relays" where
  "all_stopped db = \<lparr>table = db, phase = (\<lambda>r. Stopped)\<rparr>"
section \<open>Producer\<close>

text \<open>
  A message as \<open>PublishEvent\<close> builds it. \<open>msg_Key = None\<close> is the key left unset. The id and
  the creation instant are rendered by \<open>uuid_String\<close> and \<open>format_RFC3339\<close>, and the broker
  answers through \<open>SendMessage\<close> (\<open>None\<close> for success, else the error text); all three are
  parameters.
\<close>

record ProducerMessage =
  msg_Topic :: string
  msg_Key :: "string option"
  msg_Value :: string
  msg_Headers :: "(string \<times> string) list"
  msg_Timestamp :: int

definition PublishEvent ::
  "(nat \<Rightarrow> string) \<Rightarrow> (int \<Rightarrow> string) \<Rightarrow> (ProducerMessage \<Rightarrow> string option)
     \<Rightarrow> OutboxEvent \<Rightarrow> ProducerMessage \<times> string option" where
  "PublishEvent uuid_String format_RFC3339 SendMessage event =
     (let msg = \<lparr>msg_Topic = Topic event,
                 msg_Key = None,
                 msg_Value = EventData event,
                 msg_Headers =
                   [(''event_type'', EventType event),
                    (''aggregate_type'', AggregateType event),
                    (''aggregate_id'', AggregateID event),
                    (''event_id'', uuid_String (ID event)),
                    (''created_at'', format_RFC3339 (CreatedAt event))],
                 msg_Timestamp = CreatedAt event\<rparr>;
          msg = (case PartitionKey event of
                   None \<Rightarrow> msg
                 | Some k \<Rightarrow> if k \<noteq> [] then msg\<lparr>msg_Key := Some k\<rparr> else msg)
      in (msg, case SendMessage msg of
                 Some err \<Rightarrow> Some (''failed to publish message to Kafka: '' @ err)
               | None \<Rightarrow> None))"

section \<open>Partition strategies\<close>

text \<open>
  \<open>crc32.ChecksumIEEE\<close> of Go's standard library: the CRC-32 of IEEE 802.3, reflected
  polynomial \<open>0xEDB88320\<close>, bit by bit.
\<close>

definition crc32_bit :: "32 word \<Rightarrow> 32 word" where
  "crc32_bit c = (if c AND 1 = 1 then drop_bit 1 c XOR 0xEDB88320 else drop_bit 1 c)"

definition crc32_byte :: "32 word \<Rightarrow> char \<Rightarrow> 32 word" where
  "crc32_byte c b = (crc32_bit ^^ 8) (c XOR of_char b)"

definition ChecksumIEEE :: "string \<Rightarrow> 32 word" where
  "ChecksumIEEE bytes = NOT (foldl crc32_byte 0xFFFFFFFF bytes)"

text \<open>
  Go's \<open>%\<close> on \<open>int32\<close>: the remainder of the division that truncates towards zero, so
  that its sign is the sign of the dividend. The divisor is positive wherever it is used.
\<close>

definition go_rem32 :: "32 word \<Rightarrow> 32 word \<Rightarrow> 32 word" where
  "go_rem32 a b = word_of_int (sint a smod sint b)"

definition HashPartitionStrategy_GetPartition :: "OutboxEvent \<Rightarrow> 32 word \<Rightarrow> 32 word" where
  "HashPartitionStrategy_GetPartition event numPartitions =
     (if sint numPartitions \<le> 0 then 0
      else
        (let key = (case PartitionKey event of
                      None \<Rightarrow> AggregateID event
                    | Some k \<Rightarrow> if k \<noteq> [] then k else AggregateID event);
             hash = ChecksumIEEE key
         in go_rem32 hash numPartitions))"

text \<open>
  \<open>sha256\<close> is a parameter: the digest of the standard library, 32 bytes long, of which the
  first four are read.
\<close>

definition UserIDPartitionStrategy_GetPartition ::
  "(string \<Rightarrow> 8 word list) \<Rightarrow> OutboxEvent \<Rightarrow> 32 word \<Rightarrow> 32 word" where
  "UserIDPartitionStrategy_GetPartition sha256 event numPartitions =
     (if sint numPartitions \<le> 0 then 0
      else
        (let hash = sha256 (AggregateID event);
             hashInt = push_bit 24 (ucast (hash ! 0)) OR push_bit 16 (ucast (hash ! 1))
                       OR push_bit 8 (ucast (hash ! 2)) OR ucast (hash ! 3);
             hashInt = (if sint hashInt < 0 then - hashInt else hashInt)
         in go_rem32 hashInt numPartitions))"

text \<open>The round-robin strategy carries its counter; the result is the partition and the new counter.\<close>

definition RoundRobinPartitionStrategy_GetPartition ::
  "32 word \<Rightarrow> OutboxEvent \<Rightarrow> 32 word \<Rightarrow> 32 word \<times> 32 word" where
  "RoundRobinPartitionStrategy_GetPartition counter event numPartitions =
     (if sint numPartitions \<le> 0 then (0, counter)
      else (go_rem32 counter numPartitions, counter + 1))"

section \<open>Window engine\<close>

text \<open>
  The window of a key is a sorted set whose members and scores are both the millisecond
  timestamps of the admitted calls: a list of integers in ascending order, without
  repetition. A sorted set that becomes empty is removed from the store.
\<close>

type_synonym zset = "int list"

definition ZREMRANGEBYSCORE :: "zset store \<Rightarrow> real \<Rightarrow> string \<Rightarrow> int \<Rightarrow> zset store" where
  "ZREMRANGEBYSCORE s rnow k max_score =
     (case live s rnow k of
        None \<Rightarrow> s
      | Some e \<Rightarrow>
          (let xs = filter (\<lambda>x. \<not> x \<le> max_score) (val e)
           in if xs = [] then s(k := None) else s(k \<mapsto> e\<lparr>val := xs\<rparr>)))"

definition ZCARD :: "zset store \<Rightarrow> real \<Rightarrow> string \<Rightarrow> int" where
  "ZCARD s rnow k = (case live s rnow k of None \<Rightarrow> 0 | Some e \<Rightarrow> int (length (val e)))"

definition ZADD :: "zset store \<Rightarrow> real \<Rightarrow> string \<Rightarrow> int \<Rightarrow> zset store" where
  "ZADD s rnow k x =
     (case live s rnow k of
        None \<Rightarrow> s(k \<mapsto> \<lparr>val = [x], expire_at = None\<rparr>)
      | Some e \<Rightarrow> s(k \<mapsto> e\<lparr>val := (if x \<in> set (val e) then val e else insort x (val e))\<rparr>))"

text \<open>\<open>ZRANGE key 0 0 WITHSCORES\<close>: the entry of least score, if any.\<close>

definition ZRANGE_first :: "zset store \<Rightarrow> real \<Rightarrow> string \<Rightarrow> int option" where
  "ZRANGE_first s rnow k =
     (case live s rnow k of
        None \<Rightarrow> None
      | Some e \<Rightarrow> (case val e of [] \<Rightarrow> None | x # xs \<Rightarrow> Some x))"

record SlidingWindowConfig =
  WindowSize :: int
  MaxRequests :: int
  sw_TTL :: real

record SlidingWindowResult =
  sw_Allowed :: bool
  CurrentCount :: int
  WindowStart :: int
  WindowEnd :: int
  sw_RetryAfter :: real

definition sw_keyName :: "string \<Rightarrow> string" where
  "sw_keyName key = ''sliding_window:'' @ key"

text \<open>\<open>UnixMilli\<close> of an instant given in nanoseconds.\<close>

definition UnixMilli :: "int \<Rightarrow> int" where
  "UnixMilli t = t div 1000000"

text \<open>
  \<open>slidingWindowScript\<close>. The Lua values it returns are \<open>(allowed, current_count,
  retry_after)\<close>, whole numbers all three, which the reply carries unchanged.
\<close>

definition slidingWindowScript ::
  "zset store \<Rightarrow> real \<Rightarrow> string \<Rightarrow> int \<Rightarrow> int \<Rightarrow> int \<Rightarrow> real
     \<Rightarrow> (error + (int \<times> int \<times> int)) \<times> zset store" where
  "slidingWindowScript s rnow key window_start window_end max_requests ttl =
     (let s1 = ZREMRANGEBYSCORE s rnow key window_start;
          current_count = ZCARD s1 rnow key;
          (allowed, current_count, retry_after, s2) =
             (if current_count < max_requests
              then (1, current_count + 1, 0, ZADD s1 rnow key window_end)
              else (0, current_count,
                    (case ZRANGE_first s1 rnow key of
                       None \<Rightarrow> 0
                     | Some oldest_time \<Rightarrow>
                         (let window_size = window_end - window_start;
                              retry_after = oldest_time + window_size - window_end
                          in if retry_after < 0 then 0 else retry_after)),
                    s1))
      in case EXPIRE s2 rnow key ttl of
           Inl err \<Rightarrow> (Inl err, s2)
         | Inr s3 \<Rightarrow> (Inr (allowed, current_count, retry_after), s3))"

text \<open>
  The operations of \<open>RedisSlidingWindow\<close>. \<open>now\<close> is the caller's \<open>time.Now()\<close> in
  nanoseconds, \<open>rnow\<close> the clock of the store, which decides expiry.
\<close>

definition IsAllowed ::
  "SlidingWindowConfig \<Rightarrow> zset store \<Rightarrow> int \<Rightarrow> real \<Rightarrow> string
     \<Rightarrow> (error + SlidingWindowResult) \<times> zset store" where
  "IsAllowed cfg s now rnow key =
     (let windowStart = now - WindowSize cfg
      in case slidingWindowScript s rnow (sw_keyName key) (UnixMilli windowStart) (UnixMilli now)
                (MaxRequests cfg) (sw_TTL cfg) of
           (Inl err, s') \<Rightarrow> (Inl err, s')
         | (Inr (a, currentCount, retryAfter), s') \<Rightarrow>
             (let allowed = (parseInt64 a = 1)
              in (Inr \<lparr>sw_Allowed = allowed,
                       CurrentCount = parseInt64 currentCount,
                       WindowStart = UnixMilli windowStart,
                       WindowEnd = UnixMilli now,
                       sw_RetryAfter = (if \<not> allowed \<and> parseFloat64 retryAfter > 0
                                        then parseFloat64 retryAfter / 1000 else 0)\<rparr>,
                  s')))"

definition GetWindowState ::
  "SlidingWindowConfig \<Rightarrow> zset store \<Rightarrow> int \<Rightarrow> real \<Rightarrow> string \<Rightarrow> SlidingWindowResult \<times> zset store" where
  "GetWindowState cfg s now rnow key =
     (let windowStart = now - WindowSize cfg;
          s' = ZREMRANGEBYSCORE s rnow (sw_keyName key) (UnixMilli windowStart);
          currentCount = ZCARD s' rnow (sw_keyName key)
      in (\<lparr>sw_Allowed = currentCount < MaxRequests cfg,
           CurrentCount = currentCount,
           WindowStart = UnixMilli windowStart,
           WindowEnd = UnixMilli now,
           sw_RetryAfter = 0\<rparr>,
          s'))"

definition ClearWindow :: "zset store \<Rightarrow> string \<Rightarrow> zset store" where
  "ClearWindow s key = s(sw_keyName key := None)"

text \<open>
  The entries of a key that the store holds (dead or alive), those of a live key, and those
  that count at the caller's instant \<open>now\<close>: the live ones later than \<open>now - window\<close>.
\<close>

definition stored_entries :: "zset store \<Rightarrow> string \<Rightarrow> int list" where
  "stored_entries s key = (case s (sw_keyName key) of None \<Rightarrow> [] | Some e \<Rightarrow> val e)"

definition live_entries :: "zset store \<Rightarrow> real \<Rightarrow> string \<Rightarrow> int list" where
  "live_entries s rnow key = (case live s rnow (sw_keyName key) of None \<Rightarrow> [] | Some e \<Rightarrow> val e)"

definition counted_entries :: "SlidingWindowConfig \<Rightarrow> zset store \<Rightarrow> int \<Rightarrow> real \<Rightarrow> string \<Rightarrow> int list" where
  "counted_entries cfg s now rnow key =
     filter (\<lambda>x. UnixMilli (now - WindowSize cfg) < x) (live_entries s rnow key)"



section \<open>Store lemmas\<close>

lemma HMGET_live_fields: "HMGET s now k f = live_fields s now k f"
  by (simp add: HMGET_def live_fields_def split: option.splits)

lemma live_SomeD: "live s now k = Some e \<Longrightarrow> s k = Some e"
  by (auto simp: live_def split: option.splits if_splits)

lemma live_fresh: "live (s(k \<mapsto> \<lparr>val = v, expire_at = None\<rparr>)) now k = Some \<lparr>val = v, expire_at = None\<rparr>"
  by (simp add: live_def)

lemma HMSET_eq:
  "HMSET s now k t l c r = s(k \<mapsto> written s now k t l c r (old_expiry s now k))"
proof (cases "live s now k")
  case None
  then show ?thesis
    by (simp add: HMSET_def written_def old_expiry_def live_fields_def)
next
  case (Some e)
  then show ?thesis
    by (cases e) (simp add: HMSET_def written_def old_expiry_def live_fields_def)
qed

lemma written_expire:
  "(written s now k t l c r x)\<lparr>expire_at := y\<rparr> = written s now k t l c r y"
  by (simp add: written_def)

lemma live_written:
  "live (s(k \<mapsto> written s now k t l c r (old_expiry s now k))) now k
     = Some (written s now k t l c r (old_expiry s now k))"
proof (cases "live s now k")
  case None
  then show ?thesis
    by (simp add: written_def old_expiry_def live_def)
next
  case (Some e)
  then have "expire_at e = None \<or> (\<exists>x. expire_at e = Some x \<and> now < x)"
    by (auto simp: live_def split: option.splits if_splits)
  then show ?thesis
  proof
    assume "expire_at e = None"
    with Some show ?thesis by (simp add: written_def old_expiry_def live_def)
  next
    assume "\<exists>x. expire_at e = Some x \<and> now < x"
    then obtain x where "expire_at e = Some x" and "now < x" by blast
    with Some show ?thesis by (simp add: written_def old_expiry_def live_def)
  qed
qed

lemma write_back:
  "EXPIRE (HMSET s now k t l c r) now k ttl =
     (if \<not> whole ttl then Inl NotAnInteger else Inr (write_back_store s now k t l c r ttl))"
proof (cases "whole ttl")
  case False
  then show ?thesis by (simp add: EXPIRE_def)
next
  case True
  show ?thesis
  proof (cases "ttl \<le> 0")
    case True
    with \<open>whole ttl\<close> show ?thesis
      unfolding HMSET_eq by (simp add: EXPIRE_def live_written write_back_store_def)
  next
    case False
    with \<open>whole ttl\<close> show ?thesis
      unfolding HMSET_eq by (simp add: EXPIRE_def live_written write_back_store_def written_expire)
  qed
qed

lemma write_back_failed:
  "\<not> whole ttl \<Longrightarrow> HMSET s now k t l c r = write_back_store s now k t l c r ttl"
  by (simp add: HMSET_eq write_back_store_def)

lemma script_tokens_to_add:
  "max 0 (now - (case HMGET s now (keyName key) F_last_refill of Some v \<Rightarrow> v | None \<Rightarrow> now))
     * RefillRate cfg = refill_amount cfg s now key"
  by (simp add: refill_amount_def stored_last_refill_def HMGET_def split: option.splits)

lemma script_new_tokens:
  "min (real_of_int (Capacity cfg))
     ((case HMGET s now (keyName key) F_tokens of Some v \<Rightarrow> v | None \<Rightarrow> real_of_int (Capacity cfg))
      + refill_amount cfg s now key) = pool cfg s now key"
  by (simp add: pool_def stored_tokens_def HMGET_def split: option.splits)

lemma pool_le_capacity: "pool cfg s now key \<le> real_of_int (Capacity cfg)"
  by (simp add: pool_def)

section \<open>The take transition\<close>

lemma take_script:
  "takeTokensScript s now (keyName key) n (real_of_int (Capacity cfg)) (RefillRate cfg) (TTL cfg) =
     (if \<not> whole (TTL cfg) then Inl NotAnInteger
      else Inr (if n \<le> pool cfg s now key then 1 else 0,
                if n \<le> pool cfg s now key then pool cfg s now key - n else pool cfg s now key,
                if n \<le> pool cfg s now key then 0 else (n - pool cfg s now key) / RefillRate cfg),
      write_back_store s now (keyName key)
        (if n \<le> pool cfg s now key then pool cfg s now key - n else pool cfg s now key)
        now (real_of_int (Capacity cfg)) (RefillRate cfg) (TTL cfg))"
  unfolding takeTokensScript_def Let_def script_tokens_to_add script_new_tokens
  by (simp add: write_back write_back_failed)

text \<open>
  What \<open>TakeTokens\<close> does for a positive amount: the pool is computed and written back as
  the specification says, but the remaining count and the retry-after reach the caller as
  integers, and a time to live that is not a whole number of seconds makes the script fail
  after its write.
\<close>

lemma TakeTokens_positive:
  assumes "0 < n"
  shows "TakeTokens cfg s now key n =
     (if \<not> whole (TTL cfg) then Inl NotAnInteger
      else Inr \<lparr>Allowed = (n \<le> pool cfg s now key),
                RemainingTokens =
                  real_of_int (lua_to_integer
                    (if n \<le> pool cfg s now key then pool cfg s now key - n else pool cfg s now key)),
                RetryAfter =
                  (if n \<le> pool cfg s now key then 0
                   else max 0 (real_of_int (lua_to_integer ((n - pool cfg s now key) / RefillRate cfg))))\<rparr>,
      write_back_store s now (keyName key)
        (if n \<le> pool cfg s now key then pool cfg s now key - n else pool cfg s now key)
        now (real_of_int (Capacity cfg)) (RefillRate cfg) (TTL cfg))"
  using assms
  by (simp add: TakeTokens_def take_script parseInt64_def parseFloat64_def Let_def max_def)

lemma TakeTokens_not_positive: "n \<le> 0 \<Longrightarrow> TakeTokens cfg s now key n = (Inl TokensMustBePositive, s)"
  by (simp add: TakeTokens_def)

text \<open>
  C1. A bucket of capacity 5 refilling 1 token per second holds 0 tokens, last refilled at
  clock reading 100. A take of 1 token at clock reading 100.25 finds a pool of 0.25: the
  call is denied and, by the specification, reports 0.25 remaining tokens and a retry-after
  of 0.75 seconds. \<open>TakeTokens\<close> reports 0 remaining tokens and a retry-after of 0, while
  the record it writes back holds 0.25 tokens.
\<close>

theorem take_reply_truncated:
  "TakeTokens \<lparr>Capacity = 5, RefillRate = 1, TTL = 60\<rparr>
     [keyName ''u'' \<mapsto>
        \<lparr>val = [F_tokens \<mapsto> 0, F_last_refill \<mapsto> 100, F_capacity \<mapsto> 5, F_refill_rate \<mapsto> 1],
         expire_at = Some 160\<rparr>]
     (401 / 4) ''u'' 1
   = (Inr \<lparr>Allowed = False, RemainingTokens = 0, RetryAfter = 0\<rparr>,
      [keyName ''u'' \<mapsto>
        \<lparr>val = [F_tokens \<mapsto> 1 / 4, F_last_refill \<mapsto> 401 / 4, F_capacity \<mapsto> 5, F_refill_rate \<mapsto> 1],
         expire_at = Some (641 / 4)\<rparr>])
   \<and> pool \<lparr>Capacity = 5, RefillRate = 1, TTL = 60\<rparr>
     [keyName ''u'' \<mapsto>
        \<lparr>val = [F_tokens \<mapsto> 0, F_last_refill \<mapsto> 100, F_capacity \<mapsto> 5, F_refill_rate \<mapsto> 1],
         expire_at = Some 160\<rparr>]
     (401 / 4) ''u'' = 1 / 4
   \<and> (1 - pool \<lparr>Capacity = 5, RefillRate = 1, TTL = 60\<rparr>
     [keyName ''u'' \<mapsto>
        \<lparr>val = [F_tokens \<mapsto> 0, F_last_refill \<mapsto> 100, F_capacity \<mapsto> 5, F_refill_rate \<mapsto> 1],
         expire_at = Some 160\<rparr>]
     (401 / 4) ''u'') / RefillRate \<lparr>Capacity = 5, RefillRate = 1, TTL = 60\<rparr> = 3 / 4"
proof -
  let ?cfg = "\<lparr>Capacity = 5, RefillRate = 1, TTL = 60\<rparr>"
  let ?s = "[keyName ''u'' \<mapsto>
        \<lparr>val = [F_tokens \<mapsto> 0, F_last_refill \<mapsto> 100, F_capacity \<mapsto> 5, F_refill_rate \<mapsto> (1::real)],
         expire_at = Some (160::real)\<rparr>]"
  have l: "live ?s (401 / 4) (keyName ''u'') =
      Some \<lparr>val = [F_tokens \<mapsto> 0, F_last_refill \<mapsto> 100, F_capacity \<mapsto> 5, F_refill_rate \<mapsto> 1],
            expire_at = Some 160\<rparr>"
    by (simp add: live_def)
  have p: "pool ?cfg ?s (401 / 4) ''u'' = 1 / 4"
    by (simp add: pool_def refill_amount_def stored_tokens_def stored_last_refill_def l)
  have w: "whole 60"
    by (simp add: whole_def)
  have t1: "lua_to_integer (1 / 4) = 0"
    by (simp add: lua_to_integer_def)
  have t2: "lua_to_integer (3 / 4) = 0"
    by (simp add: lua_to_integer_def)
  have st: "write_back_store ?s (401 / 4) (keyName ''u'') (1 / 4) (401 / 4) 5 1 60 =
      [keyName ''u'' \<mapsto>
        \<lparr>val = [F_tokens \<mapsto> 1 / 4, F_last_refill \<mapsto> 401 / 4, F_capacity \<mapsto> 5, F_refill_rate \<mapsto> 1],
         expire_at = Some (641 / 4)\<rparr>]"
    by (simp add: write_back_store_def w written_def live_fields_def l)
  have "TakeTokens ?cfg ?s (401 / 4) ''u'' 1
   = (Inr \<lparr>Allowed = False, RemainingTokens = 0, RetryAfter = 0\<rparr>,
      [keyName ''u'' \<mapsto>
        \<lparr>val = [F_tokens \<mapsto> 1 / 4, F_last_refill \<mapsto> 401 / 4, F_capacity \<mapsto> 5, F_refill_rate \<mapsto> 1],
         expire_at = Some (641 / 4)\<rparr>])"
    by (simp add: TakeTokens_positive p w t1 t2 st)
  with p show ?thesis by simp
qed

section \<open>Reading a bucket\<close>

lemma floor_not_minus1: "0 \<le> (x::real) \<Longrightarrow> \<lfloor>x\<rfloor> \<noteq> - 1"
proof -
  assume "0 \<le> x"
  then have "0 \<le> \<lfloor>x\<rfloor>" by simp
  then show ?thesis by linarith
qed

lemma whole_floor_half: "whole ttl \<Longrightarrow> real_of_int \<lfloor>ttl + 1 / 2\<rfloor> = ttl"
proof -
  assume "whole ttl"
  then have "real_of_int \<lfloor>ttl\<rfloor> = ttl" unfolding whole_def .
  then have e: "ttl = real_of_int \<lfloor>ttl\<rfloor>" by (rule sym)
  have "\<lfloor>real_of_int \<lfloor>ttl\<rfloor> + 1 / 2\<rfloor> = \<lfloor>ttl\<rfloor>"
    by (simp add: floor_eq_iff)
  with e show ?thesis by simp
qed

lemma lua_to_integer_of_int: "lua_to_integer (real_of_int i) = i"
  by (simp add: lua_to_integer_def)

lemma TTL_cmd_deleted: "TTL_cmd (s(k := None)) now k = - 2"
  by (simp add: TTL_cmd_def live_def)

lemma TTL_cmd_written:
  "0 < ttl \<Longrightarrow> TTL_cmd (s(k \<mapsto> written s now k t l c r (Some (now + ttl)))) now k = \<lfloor>ttl + 1 / 2\<rfloor>"
  by (simp add: TTL_cmd_def live_def written_def)

lemma TTL_cmd_write_back:
  "whole ttl \<Longrightarrow> real_of_int (TTL_cmd (write_back_store s now k t l c r ttl) now k) =
     (if ttl \<le> 0 then - 2 else ttl)"
  by (simp add: write_back_store_def TTL_cmd_deleted TTL_cmd_written whole_floor_half)

lemma TTL_cmd_write_back_armed:
  "whole ttl \<Longrightarrow> TTL_cmd (write_back_store s now k t l c r ttl) now k \<noteq> - 1"
proof
  assume w: "whole ttl" and "TTL_cmd (write_back_store s now k t l c r ttl) now k = - 1"
  then have "(if ttl \<le> 0 then - 2 else ttl) = - 1"
    using TTL_cmd_write_back [OF w, of s now k t l c r] by simp
  then show False by (simp split: if_splits)
qed

lemma TTL_cmd_cases:
  "TTL_cmd s now k =
     (case live s now k of
        None \<Rightarrow> - 2
      | Some e \<Rightarrow> (case expire_at e of None \<Rightarrow> - 1 | Some x \<Rightarrow> \<lfloor>x - now + 1 / 2\<rfloor>))"
  by (simp add: TTL_cmd_def split: option.splits)

lemma TTL_cmd_minus1:
  "TTL_cmd s now k = - 1 \<longleftrightarrow> (\<exists>e. live s now k = Some e \<and> expire_at e = None)"
proof (cases "live s now k")
  case None
  then show ?thesis by (simp add: TTL_cmd_def)
next
  case (Some e)
  show ?thesis
  proof (cases "expire_at e")
    case None
    with Some show ?thesis by (simp add: TTL_cmd_def)
  next
    case (Some x)
    with \<open>live s now k = Some e\<close> have "now < x"
      by (auto simp: live_def split: option.splits if_splits)
    then have "\<lfloor>x - now + 1 / 2\<rfloor> \<noteq> - 1" by (intro floor_not_minus1) simp
    with Some \<open>live s now k = Some e\<close> show ?thesis by (simp add: TTL_cmd_def)
  qed
qed

text \<open>The script when the refill adds tokens.\<close>

lemma getState_script_refill:
  assumes "0 < refill_amount cfg s now key"
  shows "getBucketStateScript s now (keyName key) (real_of_int (Capacity cfg)) (RefillRate cfg) ttl =
     (if \<not> whole ttl then Inl NotAnInteger
      else Inr (pool cfg s now key, now, if ttl \<le> 0 then - 2 else ttl),
      write_back_store s now (keyName key) (pool cfg s now key) now
        (real_of_int (Capacity cfg)) (RefillRate cfg) ttl)"
proof (cases "whole ttl")
  case False
  with assms show ?thesis
    unfolding getBucketStateScript_def Let_def script_tokens_to_add script_new_tokens
    by (simp add: write_back) (simp add: write_back_failed)
next
  case True
  with assms show ?thesis
    unfolding getBucketStateScript_def Let_def script_tokens_to_add script_new_tokens
    by (simp add: write_back TTL_cmd_write_back TTL_cmd_write_back_armed)
qed

text \<open>The script when the refill adds nothing.\<close>

lemma getState_script_idle:
  assumes "\<not> 0 < refill_amount cfg s now key"
  shows "getBucketStateScript s now (keyName key) (real_of_int (Capacity cfg)) (RefillRate cfg) ttl =
     (case live s now (keyName key) of
        None \<Rightarrow> (Inr (pool cfg s now key, now, - 2), s)
      | Some e \<Rightarrow>
          (case expire_at e of
             None \<Rightarrow>
               (if \<not> whole ttl then (Inl NotAnInteger, s)
                else (Inr (pool cfg s now key, now, ttl),
                      if ttl \<le> 0 then s(keyName key := None)
                      else s(keyName key \<mapsto> e\<lparr>expire_at := Some (now + ttl)\<rparr>)))
           | Some x \<Rightarrow> (Inr (pool cfg s now key, now, real_of_int \<lfloor>x - now + 1 / 2\<rfloor>), s)))"
proof (cases "live s now (keyName key)")
  case None
  with assms show ?thesis
    unfolding getBucketStateScript_def Let_def script_tokens_to_add script_new_tokens
    by (simp add: TTL_cmd_cases)
next
  case (Some e)
  show ?thesis
  proof (cases "expire_at e")
    case None
    with Some assms show ?thesis
      unfolding getBucketStateScript_def Let_def script_tokens_to_add script_new_tokens
      by (simp add: TTL_cmd_cases EXPIRE_def)
  next
    case (Some x)
    with \<open>live s now (keyName key) = Some e\<close> have "now < x"
      by (auto simp: live_def split: option.splits if_splits)
    then have "\<lfloor>x - now + 1 / 2\<rfloor> \<noteq> - 1" by (intro floor_not_minus1) simp
    with Some \<open>live s now (keyName key) = Some e\<close> assms show ?thesis
      unfolding getBucketStateScript_def Let_def script_tokens_to_add script_new_tokens
      by (simp add: TTL_cmd_cases)
  qed
qed


lemma GetBucketState_refill:
  assumes "0 < refill_amount cfg s now key"
  shows "GetBucketState cfg s now key =
     (if \<not> whole (TTL cfg) then Inl NotAnInteger
      else Inr \<lparr>bs_Key = key,
                CurrentTokens = real_of_int (lua_to_integer (pool cfg s now key)),
                bs_Capacity = Capacity cfg,
                bs_RefillRate = RefillRate cfg,
                LastRefillTime = lua_to_integer now,
                bs_TTL = (if TTL cfg \<le> 0 then - 2 else lua_to_integer (TTL cfg))\<rparr>,
      write_back_store s now (keyName key) (pool cfg s now key) now
        (real_of_int (Capacity cfg)) (RefillRate cfg) (TTL cfg))"
proof -
  have "lua_to_integer (- 2) = - 2"
    using lua_to_integer_of_int [of "- 2"] by simp
  then show ?thesis
    by (simp add: GetBucketState_def getState_script_refill [OF assms] parseInt64_def parseFloat64_def)
qed

lemma GetBucketState_idle:
  assumes "\<not> 0 < refill_amount cfg s now key"
  shows "GetBucketState cfg s now key =
     (case live s now (keyName key) of
        None \<Rightarrow>
          (Inr \<lparr>bs_Key = key,
                CurrentTokens = real_of_int (lua_to_integer (pool cfg s now key)),
                bs_Capacity = Capacity cfg,
                bs_RefillRate = RefillRate cfg,
                LastRefillTime = lua_to_integer now,
                bs_TTL = - 2\<rparr>, s)
      | Some e \<Rightarrow>
          (case expire_at e of
             None \<Rightarrow>
               (if \<not> whole (TTL cfg) then (Inl NotAnInteger, s)
                else (Inr \<lparr>bs_Key = key,
                           CurrentTokens = real_of_int (lua_to_integer (pool cfg s now key)),
                           bs_Capacity = Capacity cfg,
                           bs_RefillRate = RefillRate cfg,
                           LastRefillTime = lua_to_integer now,
                           bs_TTL = lua_to_integer (TTL cfg)\<rparr>,
                      if TTL cfg \<le> 0 then s(keyName key := None)
                      else s(keyName key \<mapsto> e\<lparr>expire_at := Some (now + TTL cfg)\<rparr>)))
           | Some x \<Rightarrow>
               (Inr \<lparr>bs_Key = key,
                     CurrentTokens = real_of_int (lua_to_integer (pool cfg s now key)),
                     bs_Capacity = Capacity cfg,
                     bs_RefillRate = RefillRate cfg,
                     LastRefillTime = lua_to_integer now,
                     bs_TTL = \<lfloor>x - now + 1 / 2\<rfloor>\<rparr>, s)))"
proof -
  have "lua_to_integer (- 2) = - 2"
    using lua_to_integer_of_int [of "- 2"] by simp
  then show ?thesis
    by (simp add: GetBucketState_def getState_script_idle [OF assms] parseInt64_def parseFloat64_def
        lua_to_integer_of_int split: option.splits)
qed









text \<open>A key never seen: the capacity is reported and no record is created.\<close>

lemma get_state_absent_key:
  "GetBucketState cfg Map.empty now key =
     (Inr \<lparr>bs_Key = key, CurrentTokens = real_of_int (Capacity cfg), bs_Capacity = Capacity cfg,
           bs_RefillRate = RefillRate cfg, LastRefillTime = lua_to_integer now, bs_TTL = - 2\<rparr>,
      Map.empty)"
proof -
  have l: "live (Map.empty :: hash store) now (keyName key) = None"
    by (simp add: live_def)
  have r: "\<not> 0 < refill_amount cfg Map.empty now key"
    by (simp add: refill_amount_def stored_last_refill_def l)
  have p: "pool cfg Map.empty now key = real_of_int (Capacity cfg)"
    by (simp add: pool_def refill_amount_def stored_last_refill_def stored_tokens_def l)
  show ?thesis
    by (simp add: GetBucketState_idle [OF r] l p lua_to_integer_of_int)
qed

section \<open>The bucket invariant\<close>

lemma stored_tokens_bounds:
  assumes "0 \<le> Capacity cfg" and "tokens_in_range cfg s key"
  shows "0 \<le> stored_tokens cfg s now key"
proof (cases "live s now (keyName key)")
  case None
  with assms show ?thesis by (simp add: stored_tokens_def)
next
  case (Some e)
  then have "s (keyName key) = Some e" by (rule live_SomeD)
  with assms Some show ?thesis
    by (auto simp: stored_tokens_def tokens_in_range_def tokens_of_def split: option.splits)
qed

lemma refill_amount_nonneg: "0 \<le> RefillRate cfg \<Longrightarrow> 0 \<le> refill_amount cfg s now key"
  by (simp add: refill_amount_def)

lemma pool_nonneg:
  assumes "0 \<le> Capacity cfg" and "0 \<le> RefillRate cfg" and "tokens_in_range cfg s key"
  shows "0 \<le> pool cfg s now key"
  using stored_tokens_bounds [OF assms(1,3), of now] refill_amount_nonneg [OF assms(2), of s now key]
    assms(1)
  by (simp add: pool_def)

lemma tokens_of_write_back:
  "tokens_of (write_back_store s now (keyName key) t l c r ttl) key =
     (if whole ttl \<and> ttl \<le> 0 then None else Some t)"
  by (simp add: write_back_store_def tokens_of_def written_def)

lemma last_refill_of_write_back:
  "last_refill_of (write_back_store s now (keyName key) t l c r ttl) key =
     (if whole ttl \<and> ttl \<le> 0 then None else Some l)"
  by (simp add: write_back_store_def last_refill_of_def written_def)

lemma write_back_tokens_in_range:
  assumes "0 \<le> t" and "t \<le> real_of_int (Capacity cfg)"
  shows "tokens_in_range cfg (write_back_store s now (keyName key) t l c r ttl) key"
  using assms by (simp add: tokens_in_range_def tokens_of_write_back)

lemma write_back_last_refill:
  assumes "last_refill_le s key now"
  shows "last_refill_le (write_back_store s now (keyName key) t now c r ttl) key now
         \<and> last_refill_ge (write_back_store s now (keyName key) t now c r ttl) key (last_refill_of s key)"
  using assms
  by (simp add: last_refill_le_def last_refill_ge_def last_refill_of_write_back split: option.splits)

lemma unchanged_tokens_in_range:
  assumes "tokens_in_range cfg s key" and "tokens_of s' key = tokens_of s key"
  shows "tokens_in_range cfg s' key"
  using assms by (simp add: tokens_in_range_def)

lemma unchanged_last_refill:
  assumes "last_refill_le s key now" and "last_refill_of s' key = last_refill_of s key"
  shows "last_refill_le s' key now \<and> last_refill_ge s' key (last_refill_of s key)"
  using assms by (simp add: last_refill_le_def last_refill_ge_def split: option.splits)

lemma deleted_tokens_in_range: "tokens_in_range cfg (s(keyName key := None)) key"
  by (simp add: tokens_in_range_def tokens_of_def)

lemma deleted_last_refill:
  "last_refill_le (s(keyName key := None)) key now
   \<and> last_refill_ge (s(keyName key := None)) key old"
  by (simp add: last_refill_le_def last_refill_ge_def last_refill_of_def split: option.splits)

lemma apply_Take_store:
  assumes "0 < n"
  shows "apply_op cfg s now key (Take n) =
     write_back_store s now (keyName key)
       (if n \<le> pool cfg s now key then pool cfg s now key - n else pool cfg s now key)
       now (real_of_int (Capacity cfg)) (RefillRate cfg) (TTL cfg)"
  using assms by (simp add: TakeTokens_positive)

lemma apply_Take_rejected: "n \<le> 0 \<Longrightarrow> apply_op cfg s now key (Take n) = s"
  by (simp add: TakeTokens_not_positive)

lemma reset_script:
  "resetBucketScript s now k c r ttl =
     (if \<not> whole ttl then Inl NotAnInteger else Inr (c, now), write_back_store s now k c now c r ttl)"
  unfolding resetBucketScript_def Let_def
  by (simp add: write_back) (simp add: write_back_failed)

lemma apply_Reset_store:
  "apply_op cfg s now key Reset =
     write_back_store s now (keyName key) (real_of_int (Capacity cfg)) now
       (real_of_int (Capacity cfg)) (RefillRate cfg) (TTL cfg)"
  by (simp add: ResetBucket_def reset_script)

lemma apply_GetState_cases:
  "apply_op cfg s now key GetState =
       write_back_store s now (keyName key) (pool cfg s now key) now
         (real_of_int (Capacity cfg)) (RefillRate cfg) (TTL cfg)
   \<or> apply_op cfg s now key GetState = s(keyName key := None)
   \<or> (tokens_of (apply_op cfg s now key GetState) key = tokens_of s key
      \<and> last_refill_of (apply_op cfg s now key GetState) key = last_refill_of s key)"
proof (cases "0 < refill_amount cfg s now key")
  case True
  then show ?thesis by (simp add: GetBucketState_refill)
next
  case False
  note st = GetBucketState_idle [OF False]
  show ?thesis
  proof (cases "live s now (keyName key)")
    case None
    with st show ?thesis by simp
  next
    case (Some e)
    then have "s (keyName key) = Some e" by (rule live_SomeD)
    with st Some show ?thesis
      by (cases "expire_at e") (simp_all add: tokens_of_def last_refill_of_def)
  qed
qed

lemma apply_op_tokens_in_range:
  assumes "0 \<le> Capacity cfg" and "0 \<le> RefillRate cfg" and "tokens_in_range cfg s key"
  shows "tokens_in_range cfg (apply_op cfg s now key op) key"
proof (cases op)
  case (Take n)
  show ?thesis
  proof (cases "0 < n")
    case True
    note p0 = pool_nonneg [OF assms, of now] and p1 = pool_le_capacity [of cfg s now key]
    let ?t = "if n \<le> pool cfg s now key then pool cfg s now key - n else pool cfg s now key"
    have lo: "0 \<le> ?t" using p0 by simp
    have hi: "?t \<le> real_of_int (Capacity cfg)" using p1 True by simp
    show ?thesis
      unfolding Take apply_Take_store [OF True] by (rule write_back_tokens_in_range [OF lo hi])
  next
    case False
    then have "n \<le> 0" by simp
    then have eq: "apply_op cfg s now key (Take n) = s" by (rule apply_Take_rejected)
    show ?thesis
      unfolding Take eq by (rule assms(3))
  qed
next
  case GetState
  from apply_GetState_cases [of cfg s now key] show ?thesis
  proof (elim disjE conjE)
    assume st: "apply_op cfg s now key GetState =
       write_back_store s now (keyName key) (pool cfg s now key) now
         (real_of_int (Capacity cfg)) (RefillRate cfg) (TTL cfg)"
    show ?thesis
      unfolding GetState st
      by (rule write_back_tokens_in_range [OF pool_nonneg [OF assms] pool_le_capacity])
  next
    assume st: "apply_op cfg s now key GetState = s(keyName key := None)"
    show ?thesis
      unfolding GetState st by (rule deleted_tokens_in_range)
  next
    assume t: "tokens_of (apply_op cfg s now key GetState) key = tokens_of s key"
    show ?thesis
      unfolding GetState by (rule unchanged_tokens_in_range [OF assms(3) t])
  qed
next
  case Reset
  have lo: "0 \<le> real_of_int (Capacity cfg)" using assms(1) by simp
  show ?thesis
    unfolding Reset apply_Reset_store by (rule write_back_tokens_in_range [OF lo order_refl])
qed

lemma apply_op_last_refill:
  assumes "last_refill_le s key now"
  shows "last_refill_le (apply_op cfg s now key op) key now
         \<and> last_refill_ge (apply_op cfg s now key op) key (last_refill_of s key)"
proof (cases op)
  case (Take n)
  show ?thesis
  proof (cases "0 < n")
    case True
    show ?thesis
      unfolding Take apply_Take_store [OF True] by (rule write_back_last_refill [OF assms])
  next
    case False
    then have "n \<le> 0" by simp
    then have eq: "apply_op cfg s now key (Take n) = s" by (rule apply_Take_rejected)
    show ?thesis
      unfolding Take eq by (rule unchanged_last_refill [OF assms refl])
  qed
next
  case GetState
  from apply_GetState_cases [of cfg s now key] show ?thesis
  proof (elim disjE conjE)
    assume st: "apply_op cfg s now key GetState =
       write_back_store s now (keyName key) (pool cfg s now key) now
         (real_of_int (Capacity cfg)) (RefillRate cfg) (TTL cfg)"
    show ?thesis
      unfolding GetState st by (rule write_back_last_refill [OF assms])
  next
    assume st: "apply_op cfg s now key GetState = s(keyName key := None)"
    show ?thesis
      unfolding GetState st by (rule deleted_last_refill)
  next
    assume l: "last_refill_of (apply_op cfg s now key GetState) key = last_refill_of s key"
    show ?thesis
      unfolding GetState by (rule unchanged_last_refill [OF assms l])
  qed
next
  case Reset
  show ?thesis
    unfolding Reset apply_Reset_store by (rule write_back_last_refill [OF assms])
qed

text \<open>
  C6, as the code has it. Take any of the three operations at any clock reading. With a
  non-negative capacity and refill rate, and a stored token count (if any) between 0 and
  the capacity, the token count stored after the operation again lies between 0 and the
  capacity: this needs nothing of the clock. If moreover the clock reading is not earlier
  than the stored last-refill instant (if any), then after the operation the stored
  last-refill instant is not later than the clock reading and not smaller than it was
  before. The condition on the clock is needed for the second part only: \<open>take\<close> stores the
  clock reading as it is, so a reading earlier than the stored instant lowers it.
\<close>

theorem bucket_invariant:
  "(0 \<le> Capacity cfg \<and> 0 \<le> RefillRate cfg \<and> tokens_in_range cfg s key
      \<longrightarrow> tokens_in_range cfg (apply_op cfg s now key op) key)
   \<and> (last_refill_le s key now
      \<longrightarrow> last_refill_le (apply_op cfg s now key op) key now
          \<and> last_refill_ge (apply_op cfg s now key op) key (last_refill_of s key))"
proof (intro conjI impI)
  assume "0 \<le> Capacity cfg \<and> 0 \<le> RefillRate cfg \<and> tokens_in_range cfg s key"
  then show "tokens_in_range cfg (apply_op cfg s now key op) key"
    by (intro apply_op_tokens_in_range) simp_all
next
  assume l: "last_refill_le s key now"
  show "last_refill_le (apply_op cfg s now key op) key now"
    by (rule conjunct1 [OF apply_op_last_refill [OF l]])
  show "last_refill_ge (apply_op cfg s now key op) key (last_refill_of s key)"
    by (rule conjunct2 [OF apply_op_last_refill [OF l]])
qed


theorem bucket_invariant_witness:
  "0 \<le> Capacity \<lparr>Capacity = 10, RefillRate = 1, TTL = 300\<rparr>
   \<and> 0 \<le> RefillRate \<lparr>Capacity = 10, RefillRate = 1, TTL = 300\<rparr>
   \<and> tokens_in_range \<lparr>Capacity = 10, RefillRate = 1, TTL = 300\<rparr>
        [keyName ''u'' \<mapsto> \<lparr>val = [F_tokens \<mapsto> 7, F_last_refill \<mapsto> 100, F_capacity \<mapsto> 10, F_refill_rate \<mapsto> 1],
                             expire_at = Some 400\<rparr>] ''u''
   \<and> last_refill_le
        [keyName ''u'' \<mapsto> \<lparr>val = [F_tokens \<mapsto> 7, F_last_refill \<mapsto> 100, F_capacity \<mapsto> 10, F_refill_rate \<mapsto> 1],
                             expire_at = Some 400\<rparr>] ''u'' 102
   \<and> tokens_of (apply_op \<lparr>Capacity = 10, RefillRate = 1, TTL = 300\<rparr>
        [keyName ''u'' \<mapsto> \<lparr>val = [F_tokens \<mapsto> 7, F_last_refill \<mapsto> 100, F_capacity \<mapsto> 10, F_refill_rate \<mapsto> 1],
                             expire_at = Some 400\<rparr>] 102 ''u'' (Take 2)) ''u'' = Some 7
   \<and> last_refill_of (apply_op \<lparr>Capacity = 10, RefillRate = 1, TTL = 300\<rparr>
        [keyName ''u'' \<mapsto> \<lparr>val = [F_tokens \<mapsto> 7, F_last_refill \<mapsto> 100, F_capacity \<mapsto> 10, F_refill_rate \<mapsto> 1],
                             expire_at = Some 400\<rparr>] 102 ''u'' (Take 2)) ''u'' = Some 102
   \<and> tokens_in_range \<lparr>Capacity = 10, RefillRate = 1, TTL = 300\<rparr>
        (apply_op \<lparr>Capacity = 10, RefillRate = 1, TTL = 300\<rparr>
        [keyName ''u'' \<mapsto> \<lparr>val = [F_tokens \<mapsto> 7, F_last_refill \<mapsto> 100, F_capacity \<mapsto> 10, F_refill_rate \<mapsto> 1],
                             expire_at = Some 400\<rparr>] 102 ''u'' (Take 2)) ''u''
   \<and> last_refill_ge
        (apply_op \<lparr>Capacity = 10, RefillRate = 1, TTL = 300\<rparr>
        [keyName ''u'' \<mapsto> \<lparr>val = [F_tokens \<mapsto> 7, F_last_refill \<mapsto> 100, F_capacity \<mapsto> 10, F_refill_rate \<mapsto> 1],
                             expire_at = Some 400\<rparr>] 102 ''u'' (Take 2)) ''u'' (Some 100)"
proof -
  let ?cfg = "\<lparr>Capacity = 10, RefillRate = 1, TTL = 300\<rparr>"
  let ?s = "[keyName ''u'' \<mapsto> \<lparr>val = [F_tokens \<mapsto> 7, F_last_refill \<mapsto> 100, F_capacity \<mapsto> 10, F_refill_rate \<mapsto> (1::real)],
                            expire_at = Some 400\<rparr>]"
  have h1: "0 \<le> Capacity ?cfg" and h2: "0 \<le> RefillRate ?cfg" by simp_all
  have l: "last_refill_of ?s ''u'' = Some 100"
    by (simp add: last_refill_of_def)
  have h3: "tokens_in_range ?cfg ?s ''u''"
    by (simp add: tokens_in_range_def tokens_of_def)
  have h4: "last_refill_le ?s ''u'' 102"
    by (simp add: last_refill_le_def l)
  have r: "refill_amount ?cfg ?s 102 ''u'' = 2"
    by (simp add: refill_amount_def stored_last_refill_def live_def)
  have p: "pool ?cfg ?s 102 ''u'' = 9"
    by (simp add: pool_def r stored_tokens_def live_def)
  have w: "whole 300"
    by (simp add: whole_def)
  have st: "apply_op ?cfg ?s 102 ''u'' (Take 2) =
      write_back_store ?s 102 (keyName ''u'') 7 102 10 1 300"
    using apply_Take_store [of 2 ?cfg ?s 102 "''u''"] by (simp add: p del: apply_op.simps)
  have t: "tokens_of (apply_op ?cfg ?s 102 ''u'' (Take 2)) ''u'' = Some 7"
    unfolding st by (simp add: tokens_of_write_back w)
  have l': "last_refill_of (apply_op ?cfg ?s 102 ''u'' (Take 2)) ''u'' = Some 102"
    unfolding st by (simp add: last_refill_of_write_back w)
  note b = bucket_invariant [of ?cfg ?s "''u''" 102 "Take 2"]
  have b1: "tokens_in_range ?cfg (apply_op ?cfg ?s 102 ''u'' (Take 2)) ''u''"
    using conjunct1 [OF b] h1 h2 h3 by (simp only: simp_thms)
  have b3: "last_refill_ge (apply_op ?cfg ?s 102 ''u'' (Take 2)) ''u'' (Some 100)"
    using conjunct2 [OF b] h4 unfolding l by (simp only: simp_thms)
  show ?thesis
    by (intro conjI h1 h2 h3 h4 t l' b1 b3)
qed

theorem last_refill_decreases_counterexample:
  "last_refill_of
        [keyName ''u'' \<mapsto> \<lparr>val = [F_tokens \<mapsto> 7, F_last_refill \<mapsto> 100, F_capacity \<mapsto> 10, F_refill_rate \<mapsto> 1],
                             expire_at = Some 400\<rparr>] ''u'' = Some 100
   \<and> last_refill_of (apply_op \<lparr>Capacity = 10, RefillRate = 1, TTL = 300\<rparr>
        [keyName ''u'' \<mapsto> \<lparr>val = [F_tokens \<mapsto> 7, F_last_refill \<mapsto> 100, F_capacity \<mapsto> 10, F_refill_rate \<mapsto> 1],
                             expire_at = Some 400\<rparr>] 99 ''u'' (Take 1)) ''u'' = Some 99"
proof -
  let ?cfg = "\<lparr>Capacity = 10, RefillRate = 1, TTL = 300\<rparr>"
  let ?s = "[keyName ''u'' \<mapsto> \<lparr>val = [F_tokens \<mapsto> 7, F_last_refill \<mapsto> 100, F_capacity \<mapsto> 10, F_refill_rate \<mapsto> (1::real)],
                            expire_at = Some 400\<rparr>]"
  have l: "last_refill_of ?s ''u'' = Some 100"
    by (simp add: last_refill_of_def)
  have w: "whole 300"
    by (simp add: whole_def)
  have "0 < (1::real)" by simp
  note st = apply_Take_store [OF this, of ?cfg ?s 99 "''u''"]
  have l': "last_refill_of (apply_op ?cfg ?s 99 ''u'' (Take 1)) ''u'' = Some 99"
    unfolding st by (simp add: last_refill_of_write_back w)
  show ?thesis
    using l l' by (rule conjI)
qed

section \<open>The recovery pass\<close>

lemma length_ResetStale: "length (ResetStaleProcessingEvents db now timeout) = length db"
  by (simp add: ResetStaleProcessingEvents_def Let_def)

lemma nth_ResetStale:
  assumes "i < length db"
  shows "ResetStaleProcessingEvents db now timeout ! i =
     (if Status (db ! i) = StatusProcessing
         \<and> (case ProcessedAt (db ! i) of None \<Rightarrow> False | Some t \<Rightarrow> t < now - timeout)
      then (db ! i)\<lparr>Status := StatusNew, ProcessedAt := None\<rparr>
      else db ! i)"
  using assms by (simp add: ResetStaleProcessingEvents_def Let_def)

text \<open>
  C5. A run of the recovery pass at instant \<open>now\<close> with timeout \<open>timeout\<close> keeps the number of
  rows; a row whose status is PROCESSING and whose processed-at instant lies more than the
  timeout before \<open>now\<close> gets status NEW and an empty processed-at; every other row, in
  particular every PROCESSING row that is younger than the timeout (or has no processed-at),
  is left exactly as it was.
\<close>

theorem recovery_resets_exactly_stale:
  "length (ResetStaleProcessingEvents db now timeout) = length db
   \<and> (\<forall>i < length db.
        (Status (db ! i) = StatusProcessing
           \<and> (\<exists>t. ProcessedAt (db ! i) = Some t \<and> timeout < now - t)
         \<longrightarrow> Status (ResetStaleProcessingEvents db now timeout ! i) = StatusNew
             \<and> ProcessedAt (ResetStaleProcessingEvents db now timeout ! i) = None)
      \<and> (\<not> (Status (db ! i) = StatusProcessing
              \<and> (\<exists>t. ProcessedAt (db ! i) = Some t \<and> timeout < now - t))
         \<longrightarrow> ResetStaleProcessingEvents db now timeout ! i = db ! i))"
proof (intro conjI allI impI)
  show "length (ResetStaleProcessingEvents db now timeout) = length db"
    by (rule length_ResetStale)
next
  fix i
  assume i: "i < length db"
    and st: "Status (db ! i) = StatusProcessing
             \<and> (\<exists>t. ProcessedAt (db ! i) = Some t \<and> timeout < now - t)"
  then obtain t where "ProcessedAt (db ! i) = Some t" and "t < now - timeout"
    by auto
  with st show "Status (ResetStaleProcessingEvents db now timeout ! i) = StatusNew"
    and "ProcessedAt (ResetStaleProcessingEvents db now timeout ! i) = None"
    by (simp_all add: nth_ResetStale [OF i])
next
  fix i
  assume i: "i < length db"
    and st: "\<not> (Status (db ! i) = StatusProcessing
               \<and> (\<exists>t. ProcessedAt (db ! i) = Some t \<and> timeout < now - t))"
  have "\<not> (Status (db ! i) = StatusProcessing
         \<and> (case ProcessedAt (db ! i) of None \<Rightarrow> False | Some t \<Rightarrow> t < now - timeout))"
  proof (cases "ProcessedAt (db ! i)")
    case None
    then show ?thesis by simp
  next
    case (Some t)
    with st have "Status (db ! i) = StatusProcessing \<longrightarrow> \<not> timeout < now - t" by simp
    with Some show ?thesis by auto
  qed
  then show "ResetStaleProcessingEvents db now timeout ! i = db ! i"
    by (simp only: nth_ResetStale [OF i] if_False)
qed

theorem recovery_resets_exactly_stale_witness:
  "Status (ResetStaleProcessingEvents
       [sample_event 1 StatusProcessing (Some 100) 0 None,
        sample_event 2 StatusProcessing (Some 900) 0 None,
        sample_event 3 StatusProcessing None 0 None] 1000 300 ! 0) = StatusNew
   \<and> ProcessedAt (ResetStaleProcessingEvents
       [sample_event 1 StatusProcessing (Some 100) 0 None,
        sample_event 2 StatusProcessing (Some 900) 0 None,
        sample_event 3 StatusProcessing None 0 None] 1000 300 ! 0) = None
   \<and> ResetStaleProcessingEvents
       [sample_event 1 StatusProcessing (Some 100) 0 None,
        sample_event 2 StatusProcessing (Some 900) 0 None,
        sample_event 3 StatusProcessing None 0 None] 1000 300 ! 1
       = sample_event 2 StatusProcessing (Some 900) 0 None
   \<and> ResetStaleProcessingEvents
       [sample_event 1 StatusProcessing (Some 100) 0 None,
        sample_event 2 StatusProcessing (Some 900) 0 None,
        sample_event 3 StatusProcessing None 0 None] 1000 300 ! 2
       = sample_event 3 StatusProcessing None 0 None"
proof -
  let ?db = "[sample_event 1 StatusProcessing (Some 100) 0 None,
        sample_event 2 StatusProcessing (Some 900) 0 None,
        sample_event 3 StatusProcessing None 0 None]"
  note t = conjunct2 [OF recovery_resets_exactly_stale [of ?db 1000 300], rule_format]
  have l0: "0 < length ?db" and l1: "1 < length ?db" and l2: "2 < length ?db" by simp_all
  have s0: "Status (?db ! 0) = StatusProcessing
      \<and> (\<exists>t. ProcessedAt (?db ! 0) = Some t \<and> (300::int) < 1000 - t)"
    by (simp add: sample_event_def)
  have s1: "\<not> (Status (?db ! 1) = StatusProcessing
      \<and> (\<exists>t. ProcessedAt (?db ! 1) = Some t \<and> (300::int) < 1000 - t))"
    by (simp add: sample_event_def)
  have s2: "\<not> (Status (?db ! 2) = StatusProcessing
      \<and> (\<exists>t. ProcessedAt (?db ! 2) = Some t \<and> (300::int) < 1000 - t))"
    by (simp add: sample_event_def)
  note a = conjunct1 [OF t [OF l0], rule_format, OF s0]
  note b = conjunct2 [OF t [OF l1], rule_format, OF s1]
  note c = conjunct2 [OF t [OF l2], rule_format, OF s2]
  have b': "?db ! 1 = sample_event 2 StatusProcessing (Some 900) 0 None" by simp
  have c': "?db ! 2 = sample_event 3 StatusProcessing None 0 None" by simp
  show ?thesis
    using a b [unfolded b'] c [unfolded c'] by (intro conjI) simp_all
qed

text \<open>
  C10. The recovery pass changes nothing of a row but its status and processed-at: putting
  the old status and processed-at back gives the old row, so that the retry count, the
  last-error message, the payload and the identifiers are preserved; and a row whose status
  is not PROCESSING is not modified at all.
\<close>

theorem recovery_frame:
  "\<forall>i < length db.
      (ResetStaleProcessingEvents db now timeout ! i)
         \<lparr>Status := Status (db ! i), ProcessedAt := ProcessedAt (db ! i)\<rparr> = db ! i
    \<and> RetryCount (ResetStaleProcessingEvents db now timeout ! i) = RetryCount (db ! i)
    \<and> ErrorMessage (ResetStaleProcessingEvents db now timeout ! i) = ErrorMessage (db ! i)
    \<and> EventData (ResetStaleProcessingEvents db now timeout ! i) = EventData (db ! i)
    \<and> ID (ResetStaleProcessingEvents db now timeout ! i) = ID (db ! i)
    \<and> AggregateID (ResetStaleProcessingEvents db now timeout ! i) = AggregateID (db ! i)
    \<and> (Status (db ! i) \<noteq> StatusProcessing
         \<longrightarrow> ResetStaleProcessingEvents db now timeout ! i = db ! i)"
  by (simp add: nth_ResetStale)


theorem recovery_frame_witness:
  "ResetStaleProcessingEvents
       [sample_event 1 StatusProcessing (Some 100) 2 (Some ''broker down''),
        sample_event 2 StatusFailed (Some 100) 1 (Some ''broker down'')] 1000 300
   = [sample_event 1 StatusNew None 2 (Some ''broker down''),
      sample_event 2 StatusFailed (Some 100) 1 (Some ''broker down'')]
   \<and> RetryCount (ResetStaleProcessingEvents
       [sample_event 1 StatusProcessing (Some 100) 2 (Some ''broker down''),
        sample_event 2 StatusFailed (Some 100) 1 (Some ''broker down'')] 1000 300 ! 0) = 2
   \<and> ErrorMessage (ResetStaleProcessingEvents
       [sample_event 1 StatusProcessing (Some 100) 2 (Some ''broker down''),
        sample_event 2 StatusFailed (Some 100) 1 (Some ''broker down'')] 1000 300 ! 0)
       = Some ''broker down''
   \<and> ResetStaleProcessingEvents
       [sample_event 1 StatusProcessing (Some 100) 2 (Some ''broker down''),
        sample_event 2 StatusFailed (Some 100) 1 (Some ''broker down'')] 1000 300 ! 1
       = sample_event 2 StatusFailed (Some 100) 1 (Some ''broker down'')"
proof -
  let ?db = "[sample_event 1 StatusProcessing (Some 100) 2 (Some ''broker down''),
        sample_event 2 StatusFailed (Some 100) 1 (Some ''broker down'')]"
  note t = recovery_frame [of ?db 1000 300, rule_format]
  have l0: "0 < length ?db" and l1: "1 < length ?db" by simp_all
  have e: "ResetStaleProcessingEvents ?db 1000 300
     = [sample_event 1 StatusNew None 2 (Some ''broker down''),
        sample_event 2 StatusFailed (Some 100) 1 (Some ''broker down'')]"
    by (simp add: ResetStaleProcessingEvents_def sample_event_def)
  have r: "RetryCount (ResetStaleProcessingEvents ?db 1000 300 ! 0) = 2"
    using t [OF l0] by (simp add: sample_event_def)
  have m: "ErrorMessage (ResetStaleProcessingEvents ?db 1000 300 ! 0) = Some ''broker down''"
    using t [OF l0] by (simp add: sample_event_def)
  have "Status (?db ! 1) \<noteq> StatusProcessing" by (simp add: sample_event_def)
  with t [OF l1] have u: "ResetStaleProcessingEvents ?db 1000 300 ! 1 = ?db ! 1" by blast
  show ?thesis
    using e r m u by simp
qed

section \<open>Status transitions of the relay\<close>

lemma list_all2_map_self: "list_all2 P xs (map f xs) \<longleftrightarrow> (\<forall>x \<in> set xs. P x (f x))"
  by (simp add: list_all2_map2 list_all2_same)

lemma row_ok_refl: "row_ok e e"
  by (simp add: row_ok_def)

lemma row_ok_edge:
  "ID e' = ID e \<Longrightarrow> code_edge (exhausted e) (Status e) (Status e') \<Longrightarrow> row_ok e e'"
  by (simp add: row_ok_def)

lemma commit_ok_MarkEventAsFailed:
  assumes "\<forall>e \<in> set db. ID e = eid \<longrightarrow>
             Status e = StatusNew \<and> exhausted e \<or> Status e = StatusProcessing"
  shows "commit_ok db (MarkEventAsFailed db t eid msg)"
  unfolding commit_ok_def MarkEventAsFailed_def list_all2_map_self
proof
  fix e assume e: "e \<in> set db"
  show "row_ok e (if ID e = eid
        then e\<lparr>Status := StatusFailed, RetryCount := RetryCount e + 1,
               ErrorMessage := Some msg, ProcessedAt := Some t\<rparr>
        else e)"
  proof (cases "ID e = eid")
    case True
    with assms e have "Status e = StatusNew \<and> exhausted e \<or> Status e = StatusProcessing" by blast
    then have "code_edge (exhausted e) (Status e) StatusFailed" by (elim disjE conjE) simp_all
    with True show ?thesis by (simp add: row_ok_edge)
  next
    case False
    then show ?thesis by (simp add: row_ok_refl)
  qed
qed

lemma commit_ok_MarkEventAsSent:
  assumes "\<forall>e \<in> set db. ID e = eid \<longrightarrow> Status e = StatusProcessing"
  shows "commit_ok db (MarkEventAsSent db t eid)"
  unfolding commit_ok_def MarkEventAsSent_def list_all2_map_self
proof
  fix e assume e: "e \<in> set db"
  show "row_ok e (if ID e = eid then e\<lparr>Status := StatusSent, ProcessedAt := Some t\<rparr> else e)"
  proof (cases "ID e = eid")
    case True
    with assms e have "Status e = StatusProcessing" by blast
    with True show ?thesis by (simp add: row_ok_edge)
  next
    case False
    then show ?thesis by (simp add: row_ok_refl)
  qed
qed

lemma MarkEventAsProcessing_Inr:
  assumes "MarkEventAsProcessing db t eid = Inr db1"
  shows "db1 = map (\<lambda>e. if ID e = eid \<and> Status e = StatusNew
                        then e\<lparr>Status := StatusProcessing, ProcessedAt := Some t\<rparr>
                        else e) db"
  using assms by (simp add: MarkEventAsProcessing_def Let_def split: if_splits)

lemma commit_ok_MarkEventAsProcessing:
  assumes "MarkEventAsProcessing db t eid = Inr db1"
    and "\<forall>e \<in> set db. ID e = eid \<longrightarrow> \<not> exhausted e"
  shows "commit_ok db db1"
  unfolding commit_ok_def MarkEventAsProcessing_Inr [OF assms(1)] list_all2_map_self
proof
  fix e assume e: "e \<in> set db"
  show "row_ok e (if ID e = eid \<and> Status e = StatusNew
        then e\<lparr>Status := StatusProcessing, ProcessedAt := Some t\<rparr> else e)"
  proof (cases "ID e = eid \<and> Status e = StatusNew")
    case True
    with assms(2) e have "\<not> exhausted e" by blast
    with True show ?thesis by (simp add: row_ok_edge)
  next
    case False
    then have "(if ID e = eid \<and> Status e = StatusNew
        then e\<lparr>Status := StatusProcessing, ProcessedAt := Some t\<rparr> else e) = e"
      by (rule if_not_P)
    then show ?thesis by (simp only: row_ok_refl)
  qed
qed

lemma claimed_rows:
  assumes "MarkEventAsProcessing db t eid = Inr db1"
    and "\<forall>e \<in> set db. ID e = eid \<longrightarrow> Status e = StatusNew"
  shows "\<forall>e \<in> set db1. ID e = eid \<longrightarrow> Status e = StatusProcessing"
proof -
  define f where "f = (\<lambda>e::OutboxEvent. if ID e = eid \<and> Status e = StatusNew
        then e\<lparr>Status := StatusProcessing, ProcessedAt := Some t\<rparr> else e)"
  have db1: "db1 = map f db"
    unfolding f_def by (rule MarkEventAsProcessing_Inr [OF assms(1)])
  have "Status (f e) = StatusProcessing" if "e \<in> set db" and "ID (f e) = eid" for e
  proof (cases "ID e = eid \<and> Status e = StatusNew")
    case True
    then show ?thesis by (simp add: f_def)
  next
    case False
    then have "f e = e" unfolding f_def by (rule if_not_P)
    with that(2) have "ID e = eid" by simp
    with assms(2) that(1) have "Status e = StatusNew" by blast
    with \<open>ID e = eid\<close> False show ?thesis by blast
  qed
  then have "\<forall>e \<in> set db. ID (f e) = eid \<longrightarrow> Status (f e) = StatusProcessing" by blast
  then show ?thesis
    unfolding db1 by (simp only: set_map ball_simps)
qed

lemma commit_ok_ResetStale: "commit_ok db (ResetStaleProcessingEvents db now timeout)"
  unfolding commit_ok_def ResetStaleProcessingEvents_def Let_def list_all2_map_self
proof
  fix e assume "e \<in> set db"
  show "row_ok e (if Status e = StatusProcessing
           \<and> (case ProcessedAt e of None \<Rightarrow> False | Some t \<Rightarrow> t < now - timeout)
        then e\<lparr>Status := StatusNew, ProcessedAt := None\<rparr> else e)"
    by (cases "Status e = StatusProcessing
           \<and> (case ProcessedAt e of None \<Rightarrow> False | Some t \<Rightarrow> t < now - timeout)")
       (simp_all add: row_ok_edge row_ok_refl)
qed


text \<open>Rows of other events are not touched by the updates of one event.\<close>

lemma others_same_refl: "others_same eid d d"
  by (simp add: others_same_def list_all2_same)

lemma others_same_trans:
  assumes "others_same eid a b" and "others_same eid b c"
  shows "others_same eid a c"
  unfolding others_same_def
proof (rule list_all2_trans [OF _ assms [unfolded others_same_def]])
  fix x y z :: OutboxEvent
  assume "ID y = ID x \<and> (ID x \<noteq> eid \<longrightarrow> y = x)" and "ID z = ID y \<and> (ID y \<noteq> eid \<longrightarrow> z = y)"
  then show "ID z = ID x \<and> (ID x \<noteq> eid \<longrightarrow> z = x)" by simp
qed

lemma others_same_Failed: "others_same eid db (MarkEventAsFailed db t eid msg)"
  unfolding others_same_def MarkEventAsFailed_def list_all2_map_self by simp

lemma others_same_Sent: "others_same eid db (MarkEventAsSent db t eid)"
  unfolding others_same_def MarkEventAsSent_def list_all2_map_self by simp

lemma others_same_Processing:
  assumes "MarkEventAsProcessing db t eid = Inr db1"
  shows "others_same eid db db1"
  unfolding others_same_def MarkEventAsProcessing_Inr [OF assms] list_all2_map_self by simp

text \<open>One NEW event, processed on a table in which every row of its id is the event as selected.\<close>

lemma processEvent_commits:
  assumes same: "\<forall>e \<in> set db. ID e = ID ev \<longrightarrow> e = ev" and new: "Status ev = StatusNew"
  shows "successively commit_ok (db # snd (processEvent env db ev))
         \<and> others_same (ID ev) db (last (db # snd (processEvent env db ev)))"
proof (cases "RetryCount ev \<ge> MaxRetries ev")
  case True
  then have c: "snd (processEvent env db ev) =
      [MarkEventAsFailed db (mark_time env ev) (ID ev) ''exceeded maximum retry attempts'']"
    by (simp add: processEvent_def)
  from True have "exhausted ev" by (simp add: exhausted_def)
  with same new have "\<forall>e \<in> set db. ID e = ID ev \<longrightarrow>
      Status e = StatusNew \<and> exhausted e \<or> Status e = StatusProcessing"
    by blast
  then have "commit_ok db (MarkEventAsFailed db (mark_time env ev) (ID ev)
      ''exceeded maximum retry attempts'')"
    by (rule commit_ok_MarkEventAsFailed)
  then show ?thesis
    unfolding c by (simp add: others_same_Failed)
next
  case False
  show ?thesis
  proof (cases "MarkEventAsProcessing db (claim_time env ev) (ID ev)")
    case (Inl err)
    with False have c: "snd (processEvent env db ev) = []"
      by (simp add: processEvent_def)
    show ?thesis unfolding c by (simp add: others_same_refl)
  next
    case (Inr db1)
    from False have "\<not> exhausted ev" by (simp add: exhausted_def)
    with same have "\<forall>e \<in> set db. ID e = ID ev \<longrightarrow> \<not> exhausted e" by blast
    note ok1 = commit_ok_MarkEventAsProcessing [OF Inr this]
    from same new have fresh: "\<forall>e \<in> set db. ID e = ID ev \<longrightarrow> Status e = StatusNew" by blast
    note cl = claimed_rows [OF Inr fresh]
    note o1 = others_same_Processing [OF Inr]
    show ?thesis
    proof (cases "publish env ev")
      case None
      with False Inr have c: "snd (processEvent env db ev) =
          [db1, MarkEventAsSent db1 (mark_time env ev) (ID ev)]"
        by (simp add: processEvent_def)
      have ok2: "commit_ok db1 (MarkEventAsSent db1 (mark_time env ev) (ID ev))"
        using cl by (rule commit_ok_MarkEventAsSent)
      have o2: "others_same (ID ev) db (MarkEventAsSent db1 (mark_time env ev) (ID ev))"
        using o1 others_same_Sent by (rule others_same_trans)
      show ?thesis unfolding c using ok1 ok2 o2 by simp
    next
      case (Some err)
      with False Inr have c: "snd (processEvent env db ev) =
          [db1, MarkEventAsFailed db1 (mark_time env ev) (ID ev) err]"
        by (simp add: processEvent_def)
      from cl have "\<forall>e \<in> set db1. ID e = ID ev \<longrightarrow>
          Status e = StatusNew \<and> exhausted e \<or> Status e = StatusProcessing"
        by blast
      then have ok2: "commit_ok db1 (MarkEventAsFailed db1 (mark_time env ev) (ID ev) err)"
        by (rule commit_ok_MarkEventAsFailed)
      have o2: "others_same (ID ev) db (MarkEventAsFailed db1 (mark_time env ev) (ID ev) err)"
        using o1 others_same_Failed by (rule others_same_trans)
      show ?thesis unfolding c using ok1 ok2 o2 by simp
    qed
  qed
qed


lemma successively_append_last:
  assumes "xs \<noteq> []" and "successively P xs" and "successively P (last xs # ys)"
  shows "successively P (xs @ ys)"
  using assms by (auto simp: successively_append_iff successively_Cons)

lemma list_all2_right_elem:
  assumes "list_all2 P xs ys" and "y \<in> set ys"
  shows "\<exists>x \<in> set xs. P x y"
proof -
  from assms(2) obtain i where i: "i < length ys" and y: "ys ! i = y"
    by (auto simp: in_set_conv_nth)
  from assms(1) have len: "length xs = length ys" by (rule list_all2_lengthD)
  from assms(1) i have "P (xs ! i) (ys ! i)" by (rule list_all2_nthD2)
  moreover from i len have "xs ! i \<in> set xs" by simp
  ultimately show ?thesis using y by blast
qed

lemma others_same_fresh:
  assumes "others_same eid db db'"
    and "\<forall>e \<in> set db. ID e = i \<longrightarrow> e = ev"
    and "i \<noteq> eid"
  shows "\<forall>e' \<in> set db'. ID e' = i \<longrightarrow> e' = ev"
proof (intro ballI impI)
  fix e' assume "e' \<in> set db'" and i: "ID e' = i"
  with list_all2_right_elem [OF assms(1) [unfolded others_same_def]]
  obtain e where e: "e \<in> set db" and r: "ID e' = ID e \<and> (ID e \<noteq> eid \<longrightarrow> e' = e)"
    by blast
  from r i assms(3) have "e' = e" by simp
  with e i assms(2) show "e' = ev" by blast
qed

lemma process_events_commits:
  assumes "distinct (map ID es)"
    and "\<forall>ev \<in> set es. \<forall>e \<in> set db. ID e = ID ev \<longrightarrow> e = ev"
    and "\<forall>ev \<in> set es. Status ev = StatusNew"
  shows "successively commit_ok (db # process_events env db es)"
  using assms
proof (induction es arbitrary: db)
  case Nil
  show ?case by simp
next
  case (Cons ev es)
  let ?cs = "snd (processEvent env db ev)"
  let ?db' = "last (db # ?cs)"
  from Cons.prems(2) have same: "\<forall>e \<in> set db. ID e = ID ev \<longrightarrow> e = ev"
    by simp
  from Cons.prems(3) have new: "Status ev = StatusNew"
    by simp
  note pe = processEvent_commits [OF same new, of env]
  have "\<forall>ev' \<in> set es. \<forall>e \<in> set ?db'. ID e = ID ev' \<longrightarrow> e = ev'"
  proof
    fix ev' assume ev': "ev' \<in> set es"
    then have "ID ev' \<in> ID ` set es" by (rule imageI)
    with Cons.prems(1) have ne: "ID ev' \<noteq> ID ev" by auto
    from Cons.prems(2) ev' have "\<forall>e \<in> set db. ID e = ID ev' \<longrightarrow> e = ev'"
      by simp
    with conjunct2 [OF pe] show "\<forall>e \<in> set ?db'. ID e = ID ev' \<longrightarrow> e = ev'"
      using ne by (rule others_same_fresh)
  qed
  moreover from Cons.prems(1) have "distinct (map ID es)" by simp
  moreover from Cons.prems(3) have "\<forall>ev \<in> set es. Status ev = StatusNew" by simp
  ultimately have ih: "successively commit_ok (?db' # process_events env ?db' es)"
    by (intro Cons.IH)
  have "successively commit_ok ((db # ?cs) @ process_events env ?db' es)"
    using conjunct1 [OF pe] ih by (intro successively_append_last) simp_all
  then show ?case by (simp add: Let_def)
qed

lemma pending_events:
  assumes "distinct (map ID db)" and "GetPendingOutboxEvents db limit = Inr es"
  shows "distinct (map ID es)
         \<and> (\<forall>ev \<in> set es. \<forall>e \<in> set db. ID e = ID ev \<longrightarrow> e = ev)
         \<and> (\<forall>ev \<in> set es. Status ev = StatusNew)"
proof -
  let ?new = "filter (\<lambda>e. Status e = StatusNew) db"
  from assms(2) have es: "es = take (nat limit) (sort_key CreatedAt ?new)"
    by (simp add: GetPendingOutboxEvents_def split: if_splits)
  from assms(1) have inj: "inj_on ID (set db)" and d: "distinct db"
    by (simp_all add: distinct_map)
  have sub: "set es \<subseteq> set ?new"
    unfolding es using set_take_subset [of "nat limit" "sort_key CreatedAt ?new"] by simp
  have "distinct (sort_key CreatedAt ?new)" using d by simp
  then have "distinct es" unfolding es by (rule distinct_take)
  moreover have "inj_on ID (set es)"
    using inj sub by (auto intro: inj_on_subset)
  ultimately have "distinct (map ID es)" by (simp add: distinct_map)
  moreover have "\<forall>ev \<in> set es. \<forall>e \<in> set db. ID e = ID ev \<longrightarrow> e = ev"
  proof (intro ballI impI)
    fix ev e assume "ev \<in> set es" and e: "e \<in> set db" and i: "ID e = ID ev"
    with sub have "ev \<in> set db" by auto
    with inj e i show "e = ev" by (auto dest: inj_onD)
  qed
  moreover have "\<forall>ev \<in> set es. Status ev = StatusNew"
    using sub by auto
  ultimately show ?thesis by (intro conjI)
qed

lemma run_op_commits:
  assumes "distinct (map ID db)"
  shows "successively commit_ok (db # run_op cfg db op)"
proof (cases op)
  case (Recovery now)
  show ?thesis unfolding Recovery by (simp add: commit_ok_ResetStale)
next
  case (Tick env)
  show ?thesis
  proof (cases "GetPendingOutboxEvents db (BatchSize cfg)")
    case (Inl err)
    then show ?thesis unfolding Tick by (simp add: processOutboxEvents_def)
  next
    case (Inr es)
    note p = pending_events [OF assms Inr]
    from Inr have "run_op cfg db (Tick env) = process_events env db es"
      by (simp add: processOutboxEvents_def)
    then show ?thesis
      unfolding Tick
      using process_events_commits [OF conjunct1 [OF p] conjunct1 [OF conjunct2 [OF p]]
          conjunct2 [OF conjunct2 [OF p]]]
      by simp
  qed
qed


lemma row_ok_kept: "row_ok e e' \<Longrightarrow> row_kept e e'"
  by (cases "Status e") (auto simp: row_ok_def row_kept_def)


lemma commit_ok_settled: "commit_ok d d' \<Longrightarrow> settled_kept d d'"
  unfolding commit_ok_def settled_kept_def
  by (erule list_all2_mono) (rule row_ok_kept)


lemma settled_kept_refl: "settled_kept d d"
  by (simp add: settled_kept_def row_kept_def list_all2_same)

lemma row_kept_trans: "row_kept a b \<Longrightarrow> row_kept b c \<Longrightarrow> row_kept a c"
  by (auto simp: row_kept_def split: if_splits)

lemma settled_kept_trans:
  assumes "settled_kept a b" and "settled_kept b c"
  shows "settled_kept a c"
  unfolding settled_kept_def
  by (rule list_all2_trans [OF _ assms [unfolded settled_kept_def]]) (rule row_kept_trans)

lemma settled_kept_ids:
  assumes "settled_kept d d'"
  shows "map ID d' = map ID d"
  using assms unfolding settled_kept_def
  by (induction rule: list_all2_induct) (simp_all add: row_kept_def)

lemma chain_settled:
  assumes "successively commit_ok (d # tr)"
  shows "\<forall>x \<in> set tr. settled_kept d x"
  using assms
proof (induction tr arbitrary: d)
  case Nil
  show ?case by simp
next
  case (Cons y tr)
  from Cons.prems have c: "commit_ok d y" and rest: "successively commit_ok (y # tr)"
    by simp_all
  note dy = commit_ok_settled [OF c]
  from Cons.IH [OF rest] have "\<forall>x \<in> set tr. settled_kept y x" .
  then have "\<forall>x \<in> set tr. settled_kept d x"
    using dy by (blast intro: settled_kept_trans)
  with dy show ?case by simp
qed

lemma chain_last_ids:
  assumes "successively commit_ok (d # tr)"
  shows "map ID (last (d # tr)) = map ID d"
proof (cases "tr = []")
  case True
  then show ?thesis by simp
next
  case False
  then have "last (d # tr) \<in> set tr" by simp
  with chain_settled [OF assms] have "settled_kept d (last (d # tr))" by blast
  then show ?thesis by (rule settled_kept_ids)
qed

lemma run_ops_commits:
  assumes "distinct (map ID db)"
  shows "successively commit_ok (db # run_ops cfg db ops)"
  using assms
proof (induction ops arbitrary: db)
  case Nil
  show ?case by simp
next
  case (Cons op ops)
  let ?cs = "run_op cfg db op"
  let ?db' = "last (db # ?cs)"
  note c = run_op_commits [OF Cons.prems, of cfg op]
  from chain_last_ids [OF c] Cons.prems have "distinct (map ID ?db')" by simp
  then have ih: "successively commit_ok (?db' # run_ops cfg ?db' ops)"
    by (rule Cons.IH)
  have "successively commit_ok ((db # ?cs) @ run_ops cfg ?db' ops)"
    using c ih by (intro successively_append_last) simp_all
  then show ?case by (simp add: Let_def)
qed


lemma settled_kept_failed: "settled_kept d d' \<Longrightarrow> failed_kept d d'"
  unfolding settled_kept_def failed_kept_def
  by (erule list_all2_mono) (simp add: row_kept_def)

lemma pending_single_new:
  "GetPendingOutboxEvents [sample_event i StatusNew p r m] 100 = Inr [sample_event i StatusNew p r m]"
  by (simp add: GetPendingOutboxEvents_def sample_event_def)

lemma pending_single_other:
  "st \<noteq> StatusNew \<Longrightarrow> GetPendingOutboxEvents [sample_event i st p r m] 100 = Inr []"
  by (simp add: GetPendingOutboxEvents_def sample_event_def)










text \<open>
  \<open>processEvent\<close> is what one relay does to the table with its two moves on an event when no
  other commit falls in between.
\<close>

lemma processEvent_moves:
  assumes "phase st r = Running (ev # es)"
  shows "remdups_adj (map table (st # run_relays cfg st
            [Begin r (if RetryCount ev \<ge> MaxRetries ev then mark_time env ev else claim_time env ev),
             Finish r (publish env ev) (mark_time env ev)]))
         = remdups_adj (table st # snd (processEvent env (table st) ev))
       \<and> phase (last (run_relays cfg st
            [Begin r (if RetryCount ev \<ge> MaxRetries ev then mark_time env ev else claim_time env ev),
             Finish r (publish env ev) (mark_time env ev)])) r = next_phase es"
proof (cases "RetryCount ev \<ge> MaxRetries ev")
  case True
  with assms show ?thesis
    by (simp add: processEvent_def Let_def next_phase_def)
next
  case False
  show ?thesis
  proof (cases "MarkEventAsProcessing (table st) (claim_time env ev) (ID ev)")
    case (Inl err)
    with assms False show ?thesis
      by (simp add: processEvent_def Let_def next_phase_def)
  next
    case (Inr db1)
    with assms False show ?thesis
      by (cases "publish env ev") (simp_all add: processEvent_def Let_def)
  qed
qed

text \<open>
  Two relays on one event. Relay 2 claims the event and its publication is slow. Relay 3
  starts after the processing timeout: its recovery pass returns the row to NEW, it claims
  the row, publishes and marks it SENT. Then the publication of relay 2 fails, and relay 2
  marks the row FAILED.
\<close>

lemma slow_relay_claims:
  "run_relays sample_cfg (all_stopped [sample_event 7 StatusNew None 0 None])
       ([Start 2 0, Poll 2, Begin 2 10, Start 3 1000000000000] @ acts)
   = [\<lparr>table = [sample_event 7 StatusNew None 0 None], phase = (\<lambda>r. Stopped)(2 := Idle)\<rparr>,
      \<lparr>table = [sample_event 7 StatusNew None 0 None],
        phase = (\<lambda>r. Stopped)(2 := Running [sample_event 7 StatusNew None 0 None])\<rparr>,
      \<lparr>table = [sample_event 7 StatusProcessing (Some 10) 0 None],
        phase = (\<lambda>r. Stopped)(2 := Claimed (sample_event 7 StatusNew None 0 None) [])\<rparr>,
      \<lparr>table = [sample_event 7 StatusNew None 0 None],
        phase = (\<lambda>r. Stopped)(2 := Claimed (sample_event 7 StatusNew None 0 None) [], 3 := Idle)\<rparr>]
     @ run_relays sample_cfg
         \<lparr>table = [sample_event 7 StatusNew None 0 None],
          phase = (\<lambda>r. Stopped)(2 := Claimed (sample_event 7 StatusNew None 0 None) [], 3 := Idle)\<rparr>
         acts"
proof -
  let ?new = "sample_event 7 StatusNew None 0 None"
  have s1: "relay_step sample_cfg (all_stopped [?new]) (Start 2 0)
      = \<lparr>table = [?new], phase = (\<lambda>r. Stopped)(2 := Idle)\<rparr>"
    by (simp add: all_stopped_def ResetStaleProcessingEvents_def sample_event_def)
  have s2: "relay_step sample_cfg \<lparr>table = [?new], phase = (\<lambda>r. Stopped)(2 := Idle)\<rparr> (Poll 2)
      = \<lparr>table = [?new], phase = (\<lambda>r. Stopped)(2 := Running [?new])\<rparr>"
    by (simp add: sample_cfg_def pending_single_new next_phase_def)
  have s3: "relay_step sample_cfg \<lparr>table = [?new], phase = (\<lambda>r. Stopped)(2 := Running [?new])\<rparr>
        (Begin 2 10)
      = \<lparr>table = [sample_event 7 StatusProcessing (Some 10) 0 None],
         phase = (\<lambda>r. Stopped)(2 := Claimed ?new [])\<rparr>"
    by (simp add: MarkEventAsProcessing_def sample_event_def)
  have s4: "relay_step sample_cfg
        \<lparr>table = [sample_event 7 StatusProcessing (Some 10) 0 None],
         phase = (\<lambda>r. Stopped)(2 := Claimed ?new [])\<rparr> (Start 3 1000000000000)
      = \<lparr>table = [?new], phase = (\<lambda>r. Stopped)(2 := Claimed ?new [], 3 := Idle)\<rparr>"
    by (simp add: ResetStaleProcessingEvents_def sample_event_def sample_cfg_def)
  show ?thesis
    by (simp add: Let_def s1 s2 s3 s4 del: relay_step.simps)
qed


text \<open>
  The same start, but the publication of relay 2 succeeds after the recovery pass of
  relay 3: the row goes from NEW to SENT.
\<close>

lemma mark_after_recovery:
  "map table (run_relays sample_cfg (all_stopped [sample_event 7 StatusNew None 0 None])
       [Start 2 0, Poll 2, Begin 2 10, Start 3 1000000000000, Finish 2 None 1000000000030])
   = [[sample_event 7 StatusNew None 0 None],
      [sample_event 7 StatusNew None 0 None],
      [sample_event 7 StatusProcessing (Some 10) 0 None],
      [sample_event 7 StatusNew None 0 None],
      [sample_event 7 StatusSent (Some 1000000000030) 0 None]]"
proof -
  let ?new = "sample_event 7 StatusNew None 0 None"
  let ?ph = "(\<lambda>r. Stopped)(2 := Claimed ?new [])"
  have s5: "relay_step sample_cfg \<lparr>table = [?new], phase = ?ph(3 := Idle)\<rparr>
        (Finish 2 None 1000000000030)
      = \<lparr>table = [sample_event 7 StatusSent (Some 1000000000030) 0 None],
         phase = ?ph(3 := Idle, 2 := Idle)\<rparr>"
    by (simp add: MarkEventAsSent_def sample_event_def next_phase_def)
  have eq: "[Start 2 0, Poll 2, Begin 2 10, Start 3 1000000000000, Finish 2 None 1000000000030]
      = [Start 2 0, Poll 2, Begin 2 10, Start 3 1000000000000] @ [Finish 2 None 1000000000030]"
    by simp
  show ?thesis
    unfolding eq slow_relay_claims
    by (simp add: Let_def s5 del: relay_step.simps)
qed




lemma failed_rows_kept:
  assumes "distinct (map ID db)"
  shows "\<forall>d \<in> set (run_ops cfg db ops). failed_kept db d"
  using chain_settled [OF run_ops_commits [OF assms, of cfg ops]]
  by (blast intro: settled_kept_failed)

text \<open>
  C2, evaluated on the code. A fresh event (retry count 0 of at most 3) whose publication
  fails is claimed and marked FAILED with retry count 1 and the broker's error. The next
  ticks select nothing, since only NEW rows are selected, and the recovery pass resets only
  PROCESSING rows: the event is not published again, and it never reaches the error
  ``exceeded maximum retry attempts''.
\<close>

theorem failed_publish_not_retried:
  "run_ops sample_cfg [sample_event 7 StatusNew None 0 None]
        [Tick broker_down, Tick broker_down, Recovery 1000000000000, Tick broker_down]
      = [[sample_event 7 StatusProcessing (Some 10) 0 None],
         [sample_event 7 StatusFailed (Some 20) 1 (Some ''broker down'')],
         [sample_event 7 StatusFailed (Some 20) 1 (Some ''broker down'')]]"
proof -
  let ?db = "[sample_event 7 StatusNew None 0 None]"
  let ?f = "[sample_event 7 StatusFailed (Some 20) 1 (Some ''broker down'')]"
  have t1: "run_op sample_cfg ?db (Tick broker_down) =
      [[sample_event 7 StatusProcessing (Some 10) 0 None], ?f]"
    by (simp add: processOutboxEvents_def sample_cfg_def pending_single_new)
       (simp add: processEvent_def MarkEventAsProcessing_def MarkEventAsFailed_def
          sample_event_def broker_down_def)
  have t2: "run_op sample_cfg ?f (Tick broker_down) = []"
    by (simp add: processOutboxEvents_def sample_cfg_def pending_single_other)
  have t3: "run_op sample_cfg ?f (Recovery 1000000000000) = [?f]"
    by (simp add: ResetStaleProcessingEvents_def sample_event_def)
  show ?thesis
    by (simp add: Let_def t1 t2 t3 del: run_op.simps)
qed


section \<open>The message key\<close>

text \<open>
  C4, as the code has it. The key of the message that \<open>PublishEvent\<close> produces is the
  event's partition key when that is present and non-empty; otherwise the message has no
  key. The aggregate id is carried by the \<open>aggregate_id\<close> header in either case.
\<close>

theorem message_key:
  "msg_Key (fst (PublishEvent uuid_String format_RFC3339 SendMessage event)) =
     (case PartitionKey event of
        None \<Rightarrow> None
      | Some k \<Rightarrow> if k = [] then None else Some k)
   \<and> (''aggregate_id'', AggregateID event)
        \<in> set (msg_Headers (fst (PublishEvent uuid_String format_RFC3339 SendMessage event)))"
  by (simp add: PublishEvent_def Let_def split: option.splits)

theorem message_key_witness:
  "msg_Key (fst (PublishEvent (\<lambda>i. ''id'') (\<lambda>t. ''time'') (\<lambda>m. None)
        ((sample_event 7 StatusNew None 0 None)\<lparr>PartitionKey := Some ''user-1''\<rparr>))) = Some ''user-1''
   \<and> msg_Key (fst (PublishEvent (\<lambda>i. ''id'') (\<lambda>t. ''time'') (\<lambda>m. None)
        ((sample_event 7 StatusNew None 0 None)\<lparr>PartitionKey := Some ''''\<rparr>))) = None"
  using message_key [of "\<lambda>i. ''id''" "\<lambda>t. ''time''" "\<lambda>m. None"
      "(sample_event 7 StatusNew None 0 None)\<lparr>PartitionKey := Some ''user-1''\<rparr>"]
    message_key [of "\<lambda>i. ''id''" "\<lambda>t. ''time''" "\<lambda>m. None"
      "(sample_event 7 StatusNew None 0 None)\<lparr>PartitionKey := Some ''''\<rparr>"]
  by simp

theorem message_key_counterexample:
  "PartitionKey (sample_event 7 StatusNew None 0 None) = None
   \<and> AggregateID (sample_event 7 StatusNew None 0 None) = ''user-1''
   \<and> msg_Key (fst (PublishEvent (\<lambda>i. ''id'') (\<lambda>t. ''time'') (\<lambda>m. None)
        (sample_event 7 StatusNew None 0 None))) = None
   \<and> msg_Key (fst (PublishEvent (\<lambda>i. ''id'') (\<lambda>t. ''time'') (\<lambda>m. None)
        (sample_event 7 StatusNew None 0 None)))
       \<noteq> Some (AggregateID (sample_event 7 StatusNew None 0 None))"
  by (simp add: PublishEvent_def sample_event_def)

section \<open>Partition indices\<close>

text \<open>
  With a positive partition count, a strategy's result lies in \<open>[0, numPartitions)\<close>
  whenever the number it divides is not negative as an \<open>int32\<close>.
\<close>

lemma go_rem32_range:
  assumes "0 \<le> sint a" and "0 < sint n"
  shows "0 \<le> sint (go_rem32 a n) \<and> sint (go_rem32 a n) < sint n"
proof -
  let ?r = "sint a mod sint n"
  have r: "0 \<le> ?r" "?r < sint n" using assms(2) by simp_all
  have "sint n < 2 ^ 31" using sint_lt [of n] by simp
  with r have "?r < 2 ^ 31" by linarith
  with r(1) have "sint (word_of_int ?r :: 32 word) = ?r"
    by (simp add: int_word_sint)
  moreover have "sint a smod sint n = ?r"
    using assms by (simp add: smod_mod_positive)
  ultimately show ?thesis using r by (simp add: go_rem32_def)
qed

lemma hash_partition_in_range:
  assumes "0 < sint n" and "0 \<le> sint (ChecksumIEEE (case PartitionKey event of
                      None \<Rightarrow> AggregateID event
                    | Some k \<Rightarrow> if k \<noteq> [] then k else AggregateID event))"
  shows "0 \<le> sint (HashPartitionStrategy_GetPartition event n)
         \<and> sint (HashPartitionStrategy_GetPartition event n) < sint n"
  using assms go_rem32_range [OF assms(2,1)]
  by (simp add: HashPartitionStrategy_GetPartition_def)

lemma round_robin_in_range:
  assumes "0 < sint n" and "0 \<le> sint counter"
  shows "0 \<le> sint (fst (RoundRobinPartitionStrategy_GetPartition counter event n))
         \<and> sint (fst (RoundRobinPartitionStrategy_GetPartition counter event n)) < sint n"
  using assms go_rem32_range [OF assms(2,1)]
  by (simp add: RoundRobinPartitionStrategy_GetPartition_def)

text \<open>
  Outside these conditions the result can be negative: a round-robin counter that has
  wrapped around, and a digest whose first four bytes are \<open>80 00 00 00\<close>, which the
  negation in \<open>UserIDPartitionStrategy\<close> leaves negative.
\<close>

lemma round_robin_negative:
  "sint (fst (RoundRobinPartitionStrategy_GetPartition (- 1) event 3)) = - 1"
  by (simp add: RoundRobinPartitionStrategy_GetPartition_def go_rem32_def signed_modulo_int_def)

lemma user_id_negative:
  "sint (UserIDPartitionStrategy_GetPartition (\<lambda>s. [0x80, 0, 0, 0]) event 3) = - 2"
  by (simp add: UserIDPartitionStrategy_GetPartition_def go_rem32_def signed_modulo_int_def)

text \<open>
  C9, evaluated on the code. For an event whose partition key is \<open>a\<close> and 3 partitions,
  \<open>HashPartitionStrategy.GetPartition\<close> returns -1: the CRC-32 of \<open>a\<close> is \<open>0xE8B7BE43\<close>,
  negative once converted to \<open>int32\<close>, and the remainder takes the sign of the dividend.
\<close>

theorem hash_partition_negative:
  "sint (HashPartitionStrategy_GetPartition
           ((sample_event 7 StatusNew None 0 None)\<lparr>PartitionKey := Some ''a''\<rparr>) 3) = - 1"
  by code_simp

section \<open>The window boundary\<close>

lemma live_same_expiry:
  assumes "live s rnow k = Some e"
  shows "live (s(k \<mapsto> e\<lparr>val := v\<rparr>)) rnow k = Some (e\<lparr>val := v\<rparr>)"
  using assms by (auto simp: live_def split: option.splits if_splits)

lemma live_deleted: "live (s(k := None)) rnow k = None"
  by (simp add: live_def)

lemma live_entries_ZREMRANGEBYSCORE:
  "live_entries (ZREMRANGEBYSCORE s rnow (sw_keyName key) (UnixMilli (now - WindowSize cfg))) rnow key
   = counted_entries cfg s now rnow key"
proof (cases "live s rnow (sw_keyName key)")
  case None
  then show ?thesis
    by (simp add: ZREMRANGEBYSCORE_def counted_entries_def live_entries_def)
next
  case (Some e)
  let ?xs = "filter (\<lambda>x. \<not> x \<le> UnixMilli (now - WindowSize cfg)) (val e)"
  have c: "counted_entries cfg s now rnow key = ?xs"
    using Some by (simp add: counted_entries_def live_entries_def not_le)
  show ?thesis
  proof (cases "?xs = []")
    case True
    with Some have "ZREMRANGEBYSCORE s rnow (sw_keyName key) (UnixMilli (now - WindowSize cfg))
        = s(sw_keyName key := None)"
      by (simp add: ZREMRANGEBYSCORE_def Let_def)
    then show ?thesis
      unfolding c using True by (simp add: live_entries_def live_deleted)
  next
    case False
    with Some have "ZREMRANGEBYSCORE s rnow (sw_keyName key) (UnixMilli (now - WindowSize cfg))
        = s(sw_keyName key \<mapsto> e\<lparr>val := ?xs\<rparr>)"
      by (simp add: ZREMRANGEBYSCORE_def Let_def)
    then show ?thesis
      unfolding c by (simp add: live_entries_def live_same_expiry [OF Some])
  qed
qed

lemma ZCARD_live_entries: "ZCARD s rnow (sw_keyName key) = int (length (live_entries s rnow key))"
  by (simp add: ZCARD_def live_entries_def split: option.splits)

lemma ZRANGE_first_live_entries:
  "ZRANGE_first s rnow (sw_keyName key) =
     (case live_entries s rnow key of [] \<Rightarrow> None | x # xs \<Rightarrow> Some x)"
  by (simp add: ZRANGE_first_def live_entries_def split: option.splits)

lemma live_entries_ZADD:
  "live_entries (ZADD s rnow (sw_keyName key) x) rnow key =
     (if x \<in> set (live_entries s rnow key) then live_entries s rnow key
      else insort x (live_entries s rnow key))"
proof (cases "live s rnow (sw_keyName key)")
  case None
  then show ?thesis
    by (simp add: ZADD_def live_entries_def live_def)
next
  case (Some e)
  then show ?thesis
    by (simp add: ZADD_def live_entries_def live_same_expiry [OF Some])
qed

lemma live_entries_EXPIRE:
  assumes "EXPIRE s rnow (sw_keyName key) ttl = Inr s'"
  shows "live_entries s' rnow key = (if ttl \<le> 0 then [] else live_entries s rnow key)"
proof (cases "live s rnow (sw_keyName key)")
  case None
  with assms have "s' = s" by (simp add: EXPIRE_def split: if_splits)
  with None show ?thesis by (simp add: live_entries_def)
next
  case (Some e)
  show ?thesis
  proof (cases "ttl \<le> 0")
    case True
    with assms Some have "s' = s(sw_keyName key := None)" by (simp add: EXPIRE_def split: if_splits)
    with True show ?thesis by (simp add: live_entries_def live_deleted)
  next
    case False
    with assms Some have "s' = s(sw_keyName key \<mapsto> e\<lparr>expire_at := Some (rnow + ttl)\<rparr>)"
      by (simp add: EXPIRE_def split: if_splits)
    with False Some show ?thesis by (simp add: live_entries_def live_def)
  qed
qed

lemma EXPIRE_result:
  "(\<not> whole ttl \<and> EXPIRE s rnow k ttl = Inl NotAnInteger)
   \<or> (whole ttl \<and> (\<exists>s'. EXPIRE s rnow k ttl = Inr s'))"
  by (simp add: EXPIRE_def)

lemma expired_not_counted:
  assumes "t + WindowSize cfg \<le> now"
  shows "UnixMilli t \<notin> set (counted_entries cfg s now rnow key)"
proof -
  from assms have "t \<le> now - WindowSize cfg" by simp
  then have "UnixMilli t \<le> UnixMilli (now - WindowSize cfg)"
    unfolding UnixMilli_def by (rule zdiv_mono1) simp
  then show ?thesis by (simp add: counted_entries_def)
qed

text \<open>The reading operation: its reply and the entries it leaves.\<close>

lemma GetWindowState_reply:
  "fst (GetWindowState cfg s now rnow key) =
     \<lparr>sw_Allowed = int (length (counted_entries cfg s now rnow key)) < MaxRequests cfg,
      CurrentCount = int (length (counted_entries cfg s now rnow key)),
      WindowStart = UnixMilli (now - WindowSize cfg),
      WindowEnd = UnixMilli now,
      sw_RetryAfter = 0\<rparr>"
  by (simp add: GetWindowState_def Let_def ZCARD_live_entries live_entries_ZREMRANGEBYSCORE)

lemma GetWindowState_store:
  "live_entries (snd (GetWindowState cfg s now rnow key)) rnow key = counted_entries cfg s now rnow key"
  by (simp add: GetWindowState_def Let_def live_entries_ZREMRANGEBYSCORE)

text \<open>
  The admitting operation. \<open>admitted_store\<close> is the store of the script before \<open>EXPIRE\<close>.
\<close>

lemma script_before_EXPIRE:
  "slidingWindowScript s rnow (sw_keyName key) (UnixMilli (now - WindowSize cfg)) we (MaxRequests cfg) ttl =
     (case EXPIRE
         (if int (length (counted_entries cfg s now rnow key)) < MaxRequests cfg
          then ZADD (ZREMRANGEBYSCORE s rnow (sw_keyName key) (UnixMilli (now - WindowSize cfg)))
                 rnow (sw_keyName key) we
          else ZREMRANGEBYSCORE s rnow (sw_keyName key) (UnixMilli (now - WindowSize cfg)))
         rnow (sw_keyName key) ttl of
        Inl err \<Rightarrow>
          (Inl err,
           if int (length (counted_entries cfg s now rnow key)) < MaxRequests cfg
           then ZADD (ZREMRANGEBYSCORE s rnow (sw_keyName key) (UnixMilli (now - WindowSize cfg)))
                  rnow (sw_keyName key) we
           else ZREMRANGEBYSCORE s rnow (sw_keyName key) (UnixMilli (now - WindowSize cfg)))
      | Inr s3 \<Rightarrow>
          (Inr (if int (length (counted_entries cfg s now rnow key)) < MaxRequests cfg
                then (1, int (length (counted_entries cfg s now rnow key)) + 1, 0)
                else (0, int (length (counted_entries cfg s now rnow key)),
                      (case counted_entries cfg s now rnow key of
                         [] \<Rightarrow> 0
                       | x # xs \<Rightarrow>
                           if x + (we - UnixMilli (now - WindowSize cfg)) - we < 0 then 0
                           else x + (we - UnixMilli (now - WindowSize cfg)) - we))),
           s3))"
  unfolding slidingWindowScript_def Let_def ZCARD_live_entries ZRANGE_first_live_entries
    live_entries_ZREMRANGEBYSCORE
  by (simp split: list.splits sum.splits)


lemma IsAllowed_reply:
  "fst (IsAllowed cfg s now rnow key) =
     (if \<not> whole (sw_TTL cfg) then Inl NotAnInteger
      else Inr \<lparr>sw_Allowed = int (length (counted_entries cfg s now rnow key)) < MaxRequests cfg,
                CurrentCount =
                  (if int (length (counted_entries cfg s now rnow key)) < MaxRequests cfg
                   then int (length (counted_entries cfg s now rnow key)) + 1
                   else int (length (counted_entries cfg s now rnow key))),
                WindowStart = UnixMilli (now - WindowSize cfg),
                WindowEnd = UnixMilli now,
                sw_RetryAfter =
                  (if int (length (counted_entries cfg s now rnow key)) < MaxRequests cfg then 0
                   else (case counted_entries cfg s now rnow key of
                           [] \<Rightarrow> 0
                         | x # xs \<Rightarrow>
                             if 0 < x + (UnixMilli now - UnixMilli (now - WindowSize cfg)) - UnixMilli now
                             then real_of_int (x + (UnixMilli now - UnixMilli (now - WindowSize cfg))
                                               - UnixMilli now) / 1000
                             else 0))\<rparr>)"
proof -
  let ?s2 = "if int (length (counted_entries cfg s now rnow key)) < MaxRequests cfg
          then ZADD (ZREMRANGEBYSCORE s rnow (sw_keyName key) (UnixMilli (now - WindowSize cfg)))
                 rnow (sw_keyName key) (UnixMilli now)
          else ZREMRANGEBYSCORE s rnow (sw_keyName key) (UnixMilli (now - WindowSize cfg))"
  from EXPIRE_result [of "sw_TTL cfg" ?s2 rnow "sw_keyName key"] show ?thesis
  proof (elim disjE conjE exE)
    assume "\<not> whole (sw_TTL cfg)" and "EXPIRE ?s2 rnow (sw_keyName key) (sw_TTL cfg) = Inl NotAnInteger"
    then show ?thesis
      by (simp add: IsAllowed_def Let_def script_before_EXPIRE)
  next
    fix s'
    assume "whole (sw_TTL cfg)" and "EXPIRE ?s2 rnow (sw_keyName key) (sw_TTL cfg) = Inr s'"
    then show ?thesis
      by (simp add: IsAllowed_def Let_def script_before_EXPIRE parseInt64_def parseFloat64_def
          split: list.splits)
  qed
qed

lemma IsAllowed_store:
  "live_entries (snd (IsAllowed cfg s now rnow key)) rnow key =
     (if whole (sw_TTL cfg) \<and> sw_TTL cfg \<le> 0 then []
      else if int (length (counted_entries cfg s now rnow key)) < MaxRequests cfg
      then (if UnixMilli now \<in> set (counted_entries cfg s now rnow key)
            then counted_entries cfg s now rnow key
            else insort (UnixMilli now) (counted_entries cfg s now rnow key))
      else counted_entries cfg s now rnow key)"
proof -
  let ?s2 = "if int (length (counted_entries cfg s now rnow key)) < MaxRequests cfg
          then ZADD (ZREMRANGEBYSCORE s rnow (sw_keyName key) (UnixMilli (now - WindowSize cfg)))
                 rnow (sw_keyName key) (UnixMilli now)
          else ZREMRANGEBYSCORE s rnow (sw_keyName key) (UnixMilli (now - WindowSize cfg))"
  have s2: "live_entries ?s2 rnow key =
      (if int (length (counted_entries cfg s now rnow key)) < MaxRequests cfg
      then (if UnixMilli now \<in> set (counted_entries cfg s now rnow key)
            then counted_entries cfg s now rnow key
            else insort (UnixMilli now) (counted_entries cfg s now rnow key))
      else counted_entries cfg s now rnow key)"
    by (simp add: live_entries_ZADD live_entries_ZREMRANGEBYSCORE)
  from EXPIRE_result [of "sw_TTL cfg" ?s2 rnow "sw_keyName key"] show ?thesis
  proof (elim disjE conjE exE)
    assume w: "\<not> whole (sw_TTL cfg)"
      and e: "EXPIRE ?s2 rnow (sw_keyName key) (sw_TTL cfg) = Inl NotAnInteger"
    have "snd (IsAllowed cfg s now rnow key) = ?s2"
      using e by (simp add: IsAllowed_def Let_def script_before_EXPIRE)
    then show ?thesis
      using w by (simp only: s2 simp_thms if_False)
  next
    fix s'
    assume w: "whole (sw_TTL cfg)" and e: "EXPIRE ?s2 rnow (sw_keyName key) (sw_TTL cfg) = Inr s'"
    have "snd (IsAllowed cfg s now rnow key) = s'"
      using e by (simp add: IsAllowed_def Let_def script_before_EXPIRE)
    then show ?thesis
      using w by (simp add: live_entries_EXPIRE [OF e] s2)
  qed
qed

text \<open>
  C8. An allowed call of \<open>IsAllowed\<close> at the caller's instant \<open>t\<close> (with a positive time to
  live) leaves the entry \<open>UnixMilli t\<close> among the live entries of the key. At every instant
  \<open>now\<close> with \<open>t + window \<le> now\<close>, on any store, that entry is not among the entries that
  count, the live ones later than \<open>now - window\<close>. \<open>GetWindowState\<close> and \<open>IsAllowed\<close> drop
  every other entry from the store before they count: the count they report and decide on
  is the number of counted entries, and the live entries they leave in the store are the
  counted ones, plus the entry of the call itself when \<open>IsAllowed\<close> admits it. (A time to
  live that is not positive deletes the key at the end of \<open>IsAllowed\<close>; one that is not a
  whole number of seconds makes \<open>IsAllowed\<close> fail after the store was updated.)
\<close>

theorem window_entry_expires:
  assumes "t + WindowSize cfg \<le> now"
  shows "(fst (IsAllowed cfg s0 t rt key) = Inr r \<and> sw_Allowed r \<and> 0 < sw_TTL cfg
            \<longrightarrow> UnixMilli t \<in> set (live_entries (snd (IsAllowed cfg s0 t rt key)) rt key))
       \<and> UnixMilli t \<notin> set (counted_entries cfg s now rnow key)
       \<and> fst (GetWindowState cfg s now rnow key) =
           \<lparr>sw_Allowed = int (length (counted_entries cfg s now rnow key)) < MaxRequests cfg,
            CurrentCount = int (length (counted_entries cfg s now rnow key)),
            WindowStart = UnixMilli (now - WindowSize cfg),
            WindowEnd = UnixMilli now,
            sw_RetryAfter = 0\<rparr>
       \<and> live_entries (snd (GetWindowState cfg s now rnow key)) rnow key
           = counted_entries cfg s now rnow key
       \<and> fst (IsAllowed cfg s now rnow key) =
           (if \<not> whole (sw_TTL cfg) then Inl NotAnInteger
            else Inr \<lparr>sw_Allowed = int (length (counted_entries cfg s now rnow key)) < MaxRequests cfg,
                CurrentCount =
                  (if int (length (counted_entries cfg s now rnow key)) < MaxRequests cfg
                   then int (length (counted_entries cfg s now rnow key)) + 1
                   else int (length (counted_entries cfg s now rnow key))),
                WindowStart = UnixMilli (now - WindowSize cfg),
                WindowEnd = UnixMilli now,
                sw_RetryAfter =
                  (if int (length (counted_entries cfg s now rnow key)) < MaxRequests cfg then 0
                   else (case counted_entries cfg s now rnow key of
                           [] \<Rightarrow> 0
                         | x # xs \<Rightarrow>
                             if 0 < x + (UnixMilli now - UnixMilli (now - WindowSize cfg)) - UnixMilli now
                             then real_of_int (x + (UnixMilli now - UnixMilli (now - WindowSize cfg))
                                               - UnixMilli now) / 1000
                             else 0))\<rparr>)
       \<and> live_entries (snd (IsAllowed cfg s now rnow key)) rnow key =
           (if whole (sw_TTL cfg) \<and> sw_TTL cfg \<le> 0 then []
            else if int (length (counted_entries cfg s now rnow key)) < MaxRequests cfg
            then (if UnixMilli now \<in> set (counted_entries cfg s now rnow key)
                  then counted_entries cfg s now rnow key
                  else insort (UnixMilli now) (counted_entries cfg s now rnow key))
            else counted_entries cfg s now rnow key)"
proof (intro conjI impI)
  assume a: "fst (IsAllowed cfg s0 t rt key) = Inr r \<and> sw_Allowed r \<and> 0 < sw_TTL cfg"
  then have r: "fst (IsAllowed cfg s0 t rt key) = Inr r" and al: "sw_Allowed r"
    and ttl: "0 < sw_TTL cfg" by simp_all
  from r al have c: "int (length (counted_entries cfg s0 t rt key)) < MaxRequests cfg"
    unfolding IsAllowed_reply by (auto split: if_splits)
  from ttl c show "UnixMilli t \<in> set (live_entries (snd (IsAllowed cfg s0 t rt key)) rt key)"
    unfolding IsAllowed_store by (simp add: set_insort_key)
next
  show "UnixMilli t \<notin> set (counted_entries cfg s now rnow key)"
    by (rule expired_not_counted [OF assms])
qed (rule GetWindowState_reply GetWindowState_store IsAllowed_reply IsAllowed_store)+


theorem window_entry_expires_witness:
  "(5000000000::int) + WindowSize \<lparr>WindowSize = 1000000000, MaxRequests = 2, sw_TTL = 300\<rparr>
      \<le> 6000000000
   \<and> fst (IsAllowed \<lparr>WindowSize = 1000000000, MaxRequests = 2, sw_TTL = 300\<rparr>
         Map.empty 5000000000 5 ''u'') =
       Inr \<lparr>sw_Allowed = True, CurrentCount = 1, WindowStart = 4000, WindowEnd = 5000,
            sw_RetryAfter = 0\<rparr>
   \<and> UnixMilli 5000000000 \<in> set (live_entries
         (snd (IsAllowed \<lparr>WindowSize = 1000000000, MaxRequests = 2, sw_TTL = 300\<rparr>
            Map.empty 5000000000 5 ''u'')) 5 ''u'')
   \<and> fst (GetWindowState \<lparr>WindowSize = 1000000000, MaxRequests = 2, sw_TTL = 300\<rparr>
         [sw_keyName ''u'' \<mapsto> \<lparr>val = [5000], expire_at = Some 305\<rparr>] 6000000000 6 ''u'') =
       \<lparr>sw_Allowed = True, CurrentCount = 0, WindowStart = 5000, WindowEnd = 6000,
        sw_RetryAfter = 0\<rparr>
   \<and> live_entries (snd (GetWindowState \<lparr>WindowSize = 1000000000, MaxRequests = 2, sw_TTL = 300\<rparr>
         [sw_keyName ''u'' \<mapsto> \<lparr>val = [5000], expire_at = Some 305\<rparr>] 6000000000 6 ''u'')) 6 ''u'' = []
   \<and> fst (IsAllowed \<lparr>WindowSize = 1000000000, MaxRequests = 2, sw_TTL = 300\<rparr>
         [sw_keyName ''u'' \<mapsto> \<lparr>val = [5000], expire_at = Some 305\<rparr>] 6000000000 6 ''u'') =
       Inr \<lparr>sw_Allowed = True, CurrentCount = 1, WindowStart = 5000, WindowEnd = 6000,
            sw_RetryAfter = 0\<rparr>
   \<and> live_entries (snd (IsAllowed \<lparr>WindowSize = 1000000000, MaxRequests = 2, sw_TTL = 300\<rparr>
         [sw_keyName ''u'' \<mapsto> \<lparr>val = [5000], expire_at = Some 305\<rparr>] 6000000000 6 ''u'')) 6 ''u''
       = [6000]"
proof -
  let ?cfg = "\<lparr>WindowSize = 1000000000, MaxRequests = 2, sw_TTL = 300\<rparr>"
  let ?s = "[sw_keyName ''u'' \<mapsto> \<lparr>val = [5000::int], expire_at = Some 305\<rparr>]"
  let ?r = "\<lparr>sw_Allowed = True, CurrentCount = 1, WindowStart = 4000, WindowEnd = 5000,
            sw_RetryAfter = 0\<rparr>"
  have h: "(5000000000::int) + WindowSize ?cfg \<le> 6000000000" by simp
  have wh: "whole (sw_TTL ?cfg)" by (simp add: whole_def)
  have c0: "counted_entries ?cfg Map.empty 5000000000 5 ''u'' = []"
    by (simp add: counted_entries_def live_entries_def live_def)
  have c: "counted_entries ?cfg ?s 6000000000 6 ''u'' = []"
    by (simp add: counted_entries_def live_entries_def live_def UnixMilli_def)
  have u: "UnixMilli 4000000000 = 4000" "UnixMilli 5000000000 = 5000" "UnixMilli 6000000000 = 6000"
    by (simp_all add: UnixMilli_def)
  note w = window_entry_expires [OF h, of Map.empty 5 "''u''" ?r ?s 6]
  have a0: "fst (IsAllowed ?cfg Map.empty 5000000000 5 ''u'') = Inr ?r"
    using IsAllowed_reply [of ?cfg Map.empty 5000000000 5 "''u''"] wh by (simp add: c0 u)
  have st: "UnixMilli 5000000000 \<in> set (live_entries (snd (IsAllowed ?cfg Map.empty 5000000000 5 ''u'')) 5 ''u'')"
    using conjunct1 [OF w] a0 by simp
  have g: "fst (GetWindowState ?cfg ?s 6000000000 6 ''u'') =
       \<lparr>sw_Allowed = True, CurrentCount = 0, WindowStart = 5000, WindowEnd = 6000,
        sw_RetryAfter = 0\<rparr>"
    using conjunct1 [OF conjunct2 [OF conjunct2 [OF w]]] by (simp add: c u)
  have gs: "live_entries (snd (GetWindowState ?cfg ?s 6000000000 6 ''u'')) 6 ''u'' = []"
    using conjunct1 [OF conjunct2 [OF conjunct2 [OF conjunct2 [OF w]]]] by (simp only: c)
  have i: "fst (IsAllowed ?cfg ?s 6000000000 6 ''u'') =
       Inr \<lparr>sw_Allowed = True, CurrentCount = 1, WindowStart = 5000, WindowEnd = 6000,
            sw_RetryAfter = 0\<rparr>"
    using conjunct1 [OF conjunct2 [OF conjunct2 [OF conjunct2 [OF conjunct2 [OF w]]]]] wh
    by (simp add: c u)
  have ist: "live_entries (snd (IsAllowed ?cfg ?s 6000000000 6 ''u'')) 6 ''u'' = [6000]"
    using conjunct2 [OF conjunct2 [OF conjunct2 [OF conjunct2 [OF conjunct2 [OF w]]]]] wh
    by (simp add: c u)
  show ?thesis
    by (intro conjI h a0 st g gs i ist)
qed

text \<open>\<open>ClearWindow\<close> drops every entry of the key.\<close>

lemma ClearWindow_store: "live_entries (ClearWindow s key) rnow key = []"
  by (simp add: ClearWindow_def live_entries_def live_deleted)

end
